theory Spec2Isabelle
  imports Main "HOL-Library.Word" "HOL-Library.List_Lexorder" "HOL-Library.Log_Nat"
    "HOL-Library.Multiset"
begin

section \<open>The storefront home page handler (src/\_workers\_next/src/app/page.tsx)\<close>

text \<open>
  The handler \<open>Home\<close> parses the request parameters, issues its reads, shapes the
  products and the category list and hands a view model to the \<open>HomeContent\<close>
  component. The embedding follows the source statement by statement: every value the
  handler computes is a definition named after the source's variable, every read of the
  query layer is a field of an environment record whose value is the outcome the read
  delivers (a promise that resolves or rejects), and the reads the handler issues are
  logged in the order the source issues them.
\<close>

subsection \<open>Strings\<close>

text \<open>
  An ECMAScript string is a sequence of UTF-16 code units. \<open>String.prototype.trim\<close>
  and the regular expression class \<open>\s\<close> share one set of code units (WhiteSpace and
  LineTerminator); the dot of a regular expression without the \<open>s\<close> flag matches every
  code unit but the four line terminators. The default \<open>Array.prototype.sort\<close> orders
  strings by their code units, which is the lexicographic order on lists.
\<close>

type_synonym code_unit = "16 word"
type_synonym jsstring = "code_unit list"

definition js :: "string \<Rightarrow> jsstring" where
  "js s = map (\<lambda>c. of_nat (of_char c)) s"

definition isLineTerminator :: "code_unit \<Rightarrow> bool" where
  "isLineTerminator c \<longleftrightarrow> c = 0xA \<or> c = 0xD \<or> c = 0x2028 \<or> c = 0x2029"

definition isWhiteSpace :: "code_unit \<Rightarrow> bool" where
  "isWhiteSpace c \<longleftrightarrow>
     c = 0x9 \<or> c = 0xB \<or> c = 0xC \<or> c = 0x20 \<or> c = 0xA0 \<or> c = 0x1680
     \<or> (0x2000 \<le> c \<and> c \<le> 0x200A) \<or> c = 0x202F \<or> c = 0x205F \<or> c = 0x3000
     \<or> c = 0xFEFF \<or> isLineTerminator c"

definition trim :: "jsstring \<Rightarrow> jsstring" where
  "trim s = rev (dropWhile isWhiteSpace (rev (dropWhile isWhiteSpace s)))"

subsection \<open>Numbers\<close>

text \<open>
  The only Number the handler computes with is the page: \<open>Number.parseInt\<close> returns NaN,
  an integer-valued double or an infinity. \<open>toNumber\<close> is the conversion of a mathematical
  integer to the nearest double (round to nearest, ties to even, 53 significant bits;
  magnitudes from \<open>2 ^ 1024 - 2 ^ 970\<close> on round to an infinity). ECMAScript allows an
  implementation to read the digits after the twentieth as zeros; the model is the exact
  conversion, and a one followed by zeros is the same number either way. A negative zero is
  \<open>Num 0\<close>: both zeros are falsy and equal under \<open>Math.max\<close> against 1. Counts that
  come from the query layer (stock, locked, sold, totals, visitor count) are integer-valued
  doubles and are \<open>int\<close>; the one sum the handler forms of them, \<open>stockCount\<close>, is the
  double of the exact sum, as IEEE 754 addition rounds it. A rating average is only passed
  through and is a \<open>real\<close>.
\<close>

datatype jsnum = NaN | NegInf | Num int | PosInf

definition roundTiesToEven :: "nat \<Rightarrow> nat" where
  "roundTiesToEven n =
     (if n < 2 ^ 53 then n
      else let e = floorlog 2 n - 53; m = n div 2 ^ e; r = n mod 2 ^ e
           in if 2 ^ e < 2 * r \<or> (2 * r = 2 ^ e \<and> odd m) then (m + 1) * 2 ^ e else m * 2 ^ e)"

definition toNumber :: "int \<Rightarrow> jsnum" where
  "toNumber i =
     (let m = roundTiesToEven (nat \<bar>i\<bar>)
      in if 2 ^ 1024 \<le> m then (if i < 0 then NegInf else PosInf) else Num (sgn i * int m))"

definition isDigit :: "code_unit \<Rightarrow> bool" where
  "isDigit c \<longleftrightarrow> 0x30 \<le> c \<and> c \<le> 0x39"

definition mathInt :: "jsstring \<Rightarrow> int" where
  "mathInt Z = foldl (\<lambda>acc c. acc * 10 + (uint c - 48)) 0 Z"

text \<open>
  \<open>Number.parseInt(string, 10)\<close>, by the steps of ECMAScript: \<open>S\<close> is the string
  without its leading white space; the sign is \<open>-1\<close> when \<open>S\<close> starts with a minus; a
  leading plus or minus is removed; \<open>Z\<close> is the longest run of decimal digits at the
  start of what remains; the result is NaN when \<open>Z\<close> is empty, and otherwise the double
  of the signed value of \<open>Z\<close>.
\<close>

definition parseInt_sign :: "jsstring \<Rightarrow> int" where
  "parseInt_sign string =
     (let S = dropWhile isWhiteSpace string
      in if S \<noteq> [] \<and> hd S = 0x2D then - 1 else 1)"

definition parseInt_digits :: "jsstring \<Rightarrow> jsstring" where
  "parseInt_digits string =
     (let S = dropWhile isWhiteSpace string;
          S' = (if S \<noteq> [] \<and> (hd S = 0x2B \<or> hd S = 0x2D) then tl S else S)
      in takeWhile isDigit S')"

definition parseInt :: "jsstring \<Rightarrow> jsnum" where
  "parseInt string =
     (let Z = parseInt_digits string
      in if Z = [] then NaN else toNumber (parseInt_sign string * mathInt Z))"

text \<open>\<open>x || d\<close> on a Number: NaN and zero are falsy.\<close>

definition or_num :: "jsnum \<Rightarrow> jsnum \<Rightarrow> jsnum" where
  "or_num x d = (if x = NaN \<or> x = Num 0 then d else x)"

fun Math_max :: "jsnum \<Rightarrow> jsnum \<Rightarrow> jsnum" where
  "Math_max NaN y = NaN"
| "Math_max x NaN = NaN"
| "Math_max PosInf y = PosInf"
| "Math_max x PosInf = PosInf"
| "Math_max NegInf y = y"
| "Math_max x NegInf = x"
| "Math_max (Num a) (Num b) = Num (max a b)"

subsection \<open>stripMarkdown\<close>

text \<open>
  The two lazy quantifiers are matched the way a backtracking matcher does: at every
  position the rest of the pattern is tried first, and only when it fails the dot takes
  one more code unit (never a line terminator). \<open>lazy_paren\<close> is \<open>.*?\)\<close> and returns
  what follows the match; \<open>lazy_bracket\<close> is \<open>(.*?)\]\(.*?\)\<close> and returns the captured
  group with what follows the match.
\<close>

fun lazy_paren :: "jsstring \<Rightarrow> jsstring option" where
  "lazy_paren [] = None"
| "lazy_paren (c # cs) =
     (if c = 0x29 then Some cs else if isLineTerminator c then None else lazy_paren cs)"

text \<open>\<open>\]\(.*?\)\<close> tried at the start of a string.\<close>

definition close_bracket :: "jsstring \<Rightarrow> jsstring option" where
  "close_bracket s =
     (case s of
        c # d # ds \<Rightarrow> if c = 0x5D \<and> d = 0x28 then lazy_paren ds else None
      | _ \<Rightarrow> None)"

fun lazy_bracket :: "jsstring \<Rightarrow> (jsstring \<times> jsstring) option" where
  "lazy_bracket [] = None"
| "lazy_bracket (c # cs) =
     (case close_bracket (c # cs) of
        Some rest \<Rightarrow> Some ([], rest)
      | None \<Rightarrow>
          if isLineTerminator c then None
          else (case lazy_bracket cs of
                  None \<Rightarrow> None
                | Some (cap, rest) \<Rightarrow> Some (c # cap, rest)))"

text \<open>\<open>/!\[.*?\]\(.*?\)/\<close> and \<open>/\[(.*?)\]\(.*?\)/\<close> tried at the start of a string.\<close>

definition match_image :: "jsstring \<Rightarrow> (jsstring \<times> jsstring) option" where
  "match_image s =
     (case s of
        c # d # ds \<Rightarrow> if c = 0x21 \<and> d = 0x5B then lazy_bracket ds else None
      | _ \<Rightarrow> None)"

definition match_link :: "jsstring \<Rightarrow> (jsstring \<times> jsstring) option" where
  "match_link s =
     (case s of
        c # cs \<Rightarrow> if c = 0x5B then lazy_bracket cs else None
      | _ \<Rightarrow> None)"

lemma lazy_paren_length: "lazy_paren s = Some rest \<Longrightarrow> length rest < length s"
  by (induction s) (auto split: if_splits)

lemma close_bracket_length: "close_bracket s = Some rest \<Longrightarrow> length rest < length s"
  unfolding close_bracket_def
  by (cases s; cases "tl s") (auto split: if_splits dest: lazy_paren_length)

lemma lazy_bracket_length: "lazy_bracket s = Some (cap, rest) \<Longrightarrow> length rest < length s"
proof (induction s arbitrary: cap)
  case Nil
  then show ?case by simp
next
  case (Cons c cs)
  show ?case
  proof (cases "close_bracket (c # cs)")
    case (Some r)
    with Cons.prems have "rest = r" by simp
    with close_bracket_length [OF Some] show ?thesis by simp
  next
    case None
    with Cons.prems obtain cap' where "lazy_bracket cs = Some (cap', rest)"
      by (auto split: if_splits option.splits)
    from Cons.IH [OF this] show ?thesis by simp
  qed
qed

lemma match_image_length: "match_image s = Some (cap, rest) \<Longrightarrow> length rest < length s"
  unfolding match_image_def
  by (cases s; cases "tl s") (auto split: if_splits dest: lazy_bracket_length)

lemma match_link_length: "match_link s = Some (cap, rest) \<Longrightarrow> length rest < length s"
  unfolding match_link_def
  by (cases s) (auto split: if_splits dest: lazy_bracket_length)

text \<open>A global replace scans from the left; after a match it goes on behind the match,
  and the replacement text is not scanned again.\<close>

function replace_images :: "jsstring \<Rightarrow> jsstring" where
  "replace_images [] = []"
| "replace_images (c # cs) =
     (case match_image (c # cs) of
        Some (cap, rest) \<Rightarrow> replace_images rest
      | None \<Rightarrow> c # replace_images cs)"
  by pat_completeness auto
termination
  by (relation "measure length") (auto dest: match_image_length)

function replace_links :: "jsstring \<Rightarrow> jsstring" where
  "replace_links [] = []"
| "replace_links (c # cs) =
     (case match_link (c # cs) of
        Some (cap, rest) \<Rightarrow> cap @ replace_links rest
      | None \<Rightarrow> c # replace_links cs)"
  by pat_completeness auto
termination
  by (relation "measure length") (auto dest: match_link_length)

definition isMarkup :: "code_unit \<Rightarrow> bool" where
  "isMarkup c \<longleftrightarrow>
     c = 0x60 \<or> c = 0x2A \<or> c = 0x5F \<or> c = 0x3E \<or> c = 0x23 \<or> c = 0x2B \<or> c = 0x2D"

definition replace_markup :: "jsstring \<Rightarrow> jsstring" where
  "replace_markup s = map (\<lambda>c. if isMarkup c then 0x20 else c) s"

function collapse_whitespace :: "jsstring \<Rightarrow> jsstring" where
  "collapse_whitespace [] = []"
| "collapse_whitespace (c # cs) =
     (if isWhiteSpace c then 0x20 # collapse_whitespace (dropWhile isWhiteSpace cs)
      else c # collapse_whitespace cs)"
  by pat_completeness auto
termination
  by (relation "measure length") (auto simp: le_imp_less_Suc length_dropWhile_le)

definition stripMarkdown :: "jsstring \<Rightarrow> jsstring" where
  "stripMarkdown input =
     trim (collapse_whitespace (replace_markup (replace_links (replace_images input))))"

subsection \<open>Request parameters\<close>

text \<open>
  \<open>searchParams\<close> is an optional promise of a
  \<open>Record<string, string | string[] | undefined>\<close>. Reading a key that the record does
  not have gives \<open>undefined\<close>; \<open>string_or\<close> is the source's
  \<open>typeof v === 'string' ? v : d\<close>.
\<close>

datatype param = PString jsstring | PArray "jsstring list" | PUndefined

type_synonym search_params = "jsstring \<rightharpoonup> param"

definition get_param :: "search_params \<Rightarrow> jsstring \<Rightarrow> param" where
  "get_param resolved k = (case resolved k of None \<Rightarrow> PUndefined | Some v \<Rightarrow> v)"

definition string_or :: "jsstring \<Rightarrow> param \<Rightarrow> jsstring" where
  "string_or d v = (case v of PString s \<Rightarrow> s | _ \<Rightarrow> d)"

definition resolved_of :: "search_params option \<Rightarrow> search_params" where
  "resolved_of searchParams = (case searchParams of None \<Rightarrow> Map.empty | Some m \<Rightarrow> m)"

definition PAGE_SIZE :: int where
  "PAGE_SIZE = 24"

text \<open>Lines 56 to 60 of the source: the four normalised request values.\<close>

definition Home_q :: "search_params \<Rightarrow> jsstring" where
  "Home_q resolved = trim (string_or [] (get_param resolved (js ''q'')))"

definition categoryParam :: "search_params \<Rightarrow> jsstring" where
  "categoryParam resolved = trim (string_or [] (get_param resolved (js ''category'')))"

definition Home_category :: "search_params \<Rightarrow> jsstring" where
  "Home_category resolved =
     (if categoryParam resolved \<noteq> [] \<and> categoryParam resolved \<noteq> js ''all''
      then categoryParam resolved else [])"

definition Home_sort :: "search_params \<Rightarrow> jsstring" where
  "Home_sort resolved = trim (string_or (js ''default'') (get_param resolved (js ''sort'')))"

definition Home_page :: "search_params \<Rightarrow> jsnum" where
  "Home_page resolved =
     Math_max (Num 1) (or_num (parseInt (string_or (js ''1'') (get_param resolved (js ''page'')))) (Num 1))"

subsection \<open>Records of the query layer and of the view model\<close>

record search_args =
  arg_q :: jsstring
  arg_category :: jsstring
  arg_sort :: jsstring
  arg_page :: jsnum
  arg_pageSize :: int

text \<open>
  A product is the source's \<open>p: any\<close>, with the five fields the handler reads. The
  handler guards \<open>items\<close>, \<open>total\<close>, \<open>locked\<close>, \<open>sold\<close> and \<open>description\<close> with
  \<open>||\<close>, so they may be absent; an id is a string, and the empty string is the falsy id
  that \<open>filter(Boolean)\<close> drops.
\<close>

record product =
  product_id :: jsstring
  stock :: int
  locked :: "int option"
  sold :: "int option"
  description :: "jsstring option"

record search_result =
  items :: "product list option"
  total :: "int option"
  res_page :: jsnum
  res_pageSize :: int

record rating_summary =
  average :: real
  count :: int

record category_row =
  name :: jsstring
  sortOrder :: "int option"

record session_user =
  user_id :: "jsstring option"

record session =
  user :: "session_user option"

text \<open>The spread \<open>...p\<close> keeps the product's fields; five computed fields are added.\<close>

record enriched_product = product +
  stockCount :: jsnum
  soldCount :: int
  descriptionPlain :: jsstring
  rating :: real
  reviewCount :: int

record filters =
  f_q :: jsstring
  f_category :: "jsstring option"
  f_sort :: jsstring

record pagination =
  p_page :: jsnum
  p_pageSize :: int
  p_total :: int

record ('a, 'o) view_model =
  products :: "enriched_product list"
  announcement :: "'a option"
  visitorCount :: int
  categories :: "jsstring list"
  categoryConfig :: "category_row list"
  pendingOrders :: "'o list"
  filters :: filters
  pagination :: pagination

subsection \<open>Reads\<close>

text \<open>
  A read is awaited once; it resolves to a value or rejects. The environment gives, for
  each read of the handler, the outcome it delivers in this request. For the reads that
  the source wraps in \<open>unstable_cache\<close> this is the outcome of the wrapped read, whether
  the value is fresh or memoised. \<open>catch\<close> is
  \<open>promise.catch(() => d)\<close> and a \<open>try\<close> around an \<open>await\<close> with a preset default.
\<close>

datatype 'r promise = Resolved 'r | Rejected

text \<open>
  The ratings read is declared to deliver a \<open>Map\<close>, and \<open>getProductRatings\<close> builds one.
  \<open>unstable_cache\<close> hands a fresh value on as it is, but it stores a value as JSON and
  serves a memoised one parsed back: a \<open>Map\<close> is stored as \<open>{}\<close>, so what the handler
  gets from the cache on a hit is a plain object, which has no \<open>get\<close>.
\<close>

datatype ratings_value = RatingsMap "jsstring \<rightharpoonup> rating_summary" | PlainObject

definition catch :: "'r promise \<Rightarrow> 'r \<Rightarrow> 'r" where
  "catch p d = (case p of Resolved v \<Rightarrow> v | Rejected \<Rightarrow> d)"

record ('a, 'o) backend =
  auth :: "session option promise"
  searchActiveProducts :: "search_args \<Rightarrow> search_result promise"
  getCachedAnnouncement :: "'a option promise"
  getCachedVisitorCount :: "int promise"
  getCachedCategories :: "category_row list promise"
  getCachedProductCategories :: "jsstring list promise"
  getProductRatings :: "jsstring list \<Rightarrow> ratings_value promise"
  getUserPendingOrders :: "jsstring \<Rightarrow> 'o list promise"

datatype call =
    CallAuth
  | CallSearchActiveProducts search_args
  | CallAnnouncement
  | CallVisitorCount
  | CallCategories
  | CallProductCategories
  | CallProductRatings "jsstring list"
  | CallUserPendingOrders jsstring

subsection \<open>The steps of Home\<close>

definition Home_args :: "search_params \<Rightarrow> search_args" where
  "Home_args resolved =
     \<lparr>arg_q = Home_q resolved, arg_category = Home_category resolved,
      arg_sort = Home_sort resolved, arg_page = Home_page resolved, arg_pageSize = PAGE_SIZE\<rparr>"

text \<open>Lines 65 to 69: the search read, with its fallback.\<close>

definition productsResult :: "('a, 'o) backend \<Rightarrow> search_params \<Rightarrow> search_result" where
  "productsResult env resolved =
     catch (searchActiveProducts env (Home_args resolved))
       \<lparr>items = Some [], total = Some 0, res_page = Home_page resolved, res_pageSize = PAGE_SIZE\<rparr>"

text \<open>Lines 76 to 80.\<close>

definition products_of :: "search_result \<Rightarrow> product list" where
  "products_of r = (case items r of None \<Rightarrow> [] | Some xs \<Rightarrow> xs)"

definition total_of :: "search_result \<Rightarrow> int" where
  "total_of r = (case total r of None \<Rightarrow> 0 | Some n \<Rightarrow> n)"

definition productIds :: "product list \<Rightarrow> jsstring list" where
  "productIds ps = filter (\<lambda>i. i \<noteq> []) (map product_id ps)"

definition sortedIds :: "product list \<Rightarrow> jsstring list" where
  "sortedIds ps = sort (productIds ps)"

text \<open>Lines 81 to 90: the ratings read; the variable keeps its empty \<open>Map\<close> when the read
  rejects, and holds whatever the read delivered otherwise.\<close>

definition ratingsMap :: "('a, 'o) backend \<Rightarrow> product list \<Rightarrow> ratings_value" where
  "ratingsMap env ps = catch (getProductRatings env (sortedIds ps)) (RatingsMap Map.empty)"

text \<open>Lines 92 to 102, for a \<open>Map\<close>. An object is truthy, so
  \<open>ratingsMap.get(p.id) || d\<close> is \<open>d\<close> exactly when the map has no entry; \<open>x || 0\<close>
  on an absent or zero count is 0; \<open>stockCount\<close> is the sum of two doubles.\<close>

definition enrich :: "(jsstring \<rightharpoonup> rating_summary) \<Rightarrow> product \<Rightarrow> enriched_product" where
  "enrich rm p =
     (let r = (case rm (product_id p) of None \<Rightarrow> \<lparr>average = 0, count = 0\<rparr> | Some v \<Rightarrow> v)
      in \<lparr>product_id = product_id p, stock = stock p, locked = locked p, sold = sold p,
          description = description p,
          stockCount = toNumber (stock p + (case locked p of None \<Rightarrow> 0 | Some n \<Rightarrow> n)),
          soldCount = (case sold p of None \<Rightarrow> 0 | Some n \<Rightarrow> n),
          descriptionPlain = stripMarkdown (case description p of None \<Rightarrow> [] | Some d \<Rightarrow> d),
          rating = average r,
          reviewCount = count r\<rparr>)"

text \<open>
  Line 92 runs its callback once for each product, outside every \<open>try\<close>. With a \<open>Map\<close>
  each call enriches its product. With a plain object the first call throws a TypeError
  (\<open>ratingsMap.get\<close> is not a function); with no product the callback never runs.
  \<open>None\<close> is the throw.
\<close>

definition productsWithRatings :: "ratings_value \<Rightarrow> product list \<Rightarrow> enriched_product list option" where
  "productsWithRatings rv ps =
     (case rv of
        RatingsMap rm \<Rightarrow> Some (map (enrich rm) ps)
      | PlainObject \<Rightarrow> if ps = [] then Some [] else None)"

text \<open>Line 106: \<open>session?.user?.id\<close>, when it is truthy.\<close>

definition session_user_id :: "session option \<Rightarrow> jsstring option" where
  "session_user_id s =
     (case s of
        None \<Rightarrow> None
      | Some s' \<Rightarrow>
          (case user s' of
             None \<Rightarrow> None
           | Some u \<Rightarrow>
               (case user_id u of
                  None \<Rightarrow> None
                | Some i \<Rightarrow> if i = [] then None else Some i)))"

text \<open>Lines 105 to 112.\<close>

definition pendingOrders_of :: "('a, 'o) backend \<Rightarrow> session option \<Rightarrow> 'o list" where
  "pendingOrders_of env s =
     (case session_user_id s of
        None \<Rightarrow> []
      | Some i \<Rightarrow> catch (getUserPendingOrders env i) [])"

text \<open>
  Lines 114 to 118. \<open>Array.prototype.sort\<close> is stable and sorts the array it is called
  on: after line 114 the variable \<open>categoryConfig\<close> holds \<open>sorted_config\<close>, and that
  array is what line 125 hands on.
\<close>

definition sortKey :: "category_row \<Rightarrow> int" where
  "sortKey c = (case sortOrder c of None \<Rightarrow> 0 | Some n \<Rightarrow> n)"

definition sorted_config :: "category_row list \<Rightarrow> category_row list" where
  "sorted_config cfg = sort_key sortKey cfg"

definition categoryNames :: "category_row list \<Rightarrow> jsstring list" where
  "categoryNames cfg = map name (sorted_config cfg)"

definition extraCategories :: "category_row list \<Rightarrow> jsstring list \<Rightarrow> jsstring list" where
  "extraCategories cfg pcs = sort (filter (\<lambda>c. c \<notin> set (categoryNames cfg)) pcs)"

definition categories_of :: "category_row list \<Rightarrow> jsstring list \<Rightarrow> jsstring list" where
  "categories_of cfg pcs = categoryNames cfg @ extraCategories cfg pcs"

subsection \<open>Home\<close>

text \<open>
  The handler returns the reads it issued, in order, and the promise of its view model.
  The six reads of \<open>Promise.all\<close> are all started; the session read has no handler of its
  own, so its rejection rejects \<open>Promise.all\<close> and with it \<open>Home\<close>. The ratings read is
  issued next. A throw in line 92 ends the handler there: \<open>Home\<close> rejects and nothing
  after that line runs. Otherwise the pending-orders read is issued, only for a truthy user
  id.
\<close>

definition first_calls :: "search_params \<Rightarrow> call list" where
  "first_calls resolved =
     [CallAuth, CallSearchActiveProducts (Home_args resolved), CallAnnouncement,
      CallVisitorCount, CallCategories, CallProductCategories]"

definition Home :: "('a, 'o) backend \<Rightarrow> search_params option \<Rightarrow> call list \<times> ('a, 'o) view_model promise" where
  "Home env searchParams =
     (let resolved = resolved_of searchParams
      in case auth env of
           Rejected \<Rightarrow> (first_calls resolved, Rejected)
         | Resolved session \<Rightarrow>
             (let result = productsResult env resolved;
                  config = catch (getCachedCategories env) [];
                  productCategories = catch (getCachedProductCategories env) [];
                  ps = products_of result
              in case productsWithRatings (ratingsMap env ps) ps of
                   None \<Rightarrow>
                     (first_calls resolved @ [CallProductRatings (sortedIds ps)], Rejected)
                 | Some enriched \<Rightarrow>
                     (first_calls resolved
                        @ [CallProductRatings (sortedIds ps)]
                        @ (case session_user_id session of
                             None \<Rightarrow> []
                           | Some i \<Rightarrow> [CallUserPendingOrders i]),
                      Resolved
                        \<lparr>products = enriched,
                         announcement = catch (getCachedAnnouncement env) None,
                         visitorCount = catch (getCachedVisitorCount env) 0,
                         categories = categories_of config productCategories,
                         categoryConfig = sorted_config config,
                         pendingOrders = pendingOrders_of env session,
                         filters =
                           \<lparr>f_q = Home_q resolved,
                            f_category =
                              (if Home_category resolved = [] then None
                               else Some (Home_category resolved)),
                            f_sort = Home_sort resolved\<rparr>,
                         pagination =
                           \<lparr>p_page = Home_page resolved, p_pageSize = PAGE_SIZE,
                            p_total = total_of result\<rparr>\<rparr>)))"

subsection \<open>Environments for concrete runs\<close>

text \<open>\<open>env_down\<close>: nobody is signed in and every other read rejects.\<close>

definition env_down :: "(unit, unit) backend" where
  "env_down =
     \<lparr>auth = Resolved None, searchActiveProducts = (\<lambda>_. Rejected),
      getCachedAnnouncement = Rejected, getCachedVisitorCount = Rejected,
      getCachedCategories = Rejected, getCachedProductCategories = Rejected,
      getProductRatings = (\<lambda>_. Rejected), getUserPendingOrders = (\<lambda>_. Rejected)\<rparr>"

text \<open>\<open>env_orders\<close>: a session whose user has an empty id, and a pending-orders read
  that would deliver an order.\<close>

definition env_orders :: "(unit, unit) backend" where
  "env_orders = env_down\<lparr>auth := Resolved (Some \<lparr>user = Some \<lparr>user_id = Some []\<rparr>\<rparr>),
                         getUserPendingOrders := (\<lambda>_. Resolved [()])\<rparr>"

text \<open>
  \<open>env_shop\<close>: a signed-in user, a search result of two products, one of them rated, and
  a pending order; every read resolves, the ratings read with a fresh \<open>Map\<close>.
  \<open>env_shop_unrated\<close> is the same shop with a ratings read that rejects,
  \<open>env_shop_memoised\<close> the same shop with a ratings read served from the cache.
\<close>

definition product_a :: product where
  "product_a =
     \<lparr>product_id = js ''a'', stock = 5, locked = Some 2, sold = None,
      description = Some (js ''**Hi** [link](url) ![img](url2)'')\<rparr>"

definition product_b :: product where
  "product_b =
     \<lparr>product_id = js ''b'', stock = 1, locked = None, sold = Some 3, description = None\<rparr>"

definition env_shop :: "(unit, unit) backend" where
  "env_shop =
     \<lparr>auth = Resolved (Some \<lparr>user = Some \<lparr>user_id = Some (js ''u1'')\<rparr>\<rparr>),
      searchActiveProducts =
        (\<lambda>_. Resolved \<lparr>items = Some [product_b, product_a], total = Some 2,
                        res_page = Num 1, res_pageSize = 24\<rparr>),
      getCachedAnnouncement = Resolved (Some ()),
      getCachedVisitorCount = Resolved 42,
      getCachedCategories =
        Resolved [\<lparr>name = js ''B'', sortOrder = Some 2\<rparr>, \<lparr>name = js ''A'', sortOrder = Some 1\<rparr>],
      getCachedProductCategories = Resolved [js ''A'', js ''C''],
      getProductRatings =
        (\<lambda>_. Resolved (RatingsMap [js ''a'' \<mapsto> \<lparr>average = 4, count = 2\<rparr>])),
      getUserPendingOrders = (\<lambda>_. Resolved [()])\<rparr>"

definition env_shop_unrated :: "(unit, unit) backend" where
  "env_shop_unrated = env_shop\<lparr>getProductRatings := (\<lambda>_. Rejected)\<rparr>"

definition env_shop_memoised :: "(unit, unit) backend" where
  "env_shop_memoised = env_shop\<lparr>getProductRatings := (\<lambda>_. Resolved PlainObject)\<rparr>"

definition env_shop_nosearch :: "(unit, unit) backend" where
  "env_shop_nosearch = env_shop\<lparr>searchActiveProducts := (\<lambda>_. Rejected)\<rparr>"

text \<open>
  \<open>env_dup_categories\<close>: the product-categories read delivers one name twice.
  \<open>env_dup_products\<close>: the search read delivers one product twice.
\<close>

definition env_dup_categories :: "(unit, unit) backend" where
  "env_dup_categories = env_down\<lparr>getCachedProductCategories := Resolved [js ''C'', js ''C'']\<rparr>"

definition env_dup_products :: "(unit, unit) backend" where
  "env_dup_products =
     env_down\<lparr>searchActiveProducts :=
       (\<lambda>_. Resolved \<lparr>items = Some [product_a, product_a], total = Some 2,
                       res_page = Num 1, res_pageSize = 24\<rparr>)\<rparr>"

section \<open>Properties\<close>

subsection \<open>What Home returns\<close>

lemma Home_Rejected: "auth env = Rejected \<Longrightarrow> snd (Home env sp) = Rejected"
  by (simp add: Home_def)

lemma Home_throws:
  "auth env = Resolved s \<Longrightarrow>
   productsWithRatings (ratingsMap env (products_of (productsResult env (resolved_of sp))))
     (products_of (productsResult env (resolved_of sp))) = None \<Longrightarrow>
   snd (Home env sp) = Rejected"
  by (simp add: Home_def Let_def)

lemma Home_Resolved:
  "auth env = Resolved s \<Longrightarrow>
   productsWithRatings (ratingsMap env (products_of (productsResult env (resolved_of sp))))
     (products_of (productsResult env (resolved_of sp))) = Some enriched \<Longrightarrow>
   snd (Home env sp) = Resolved
     \<lparr>products = enriched,
      announcement = catch (getCachedAnnouncement env) None,
      visitorCount = catch (getCachedVisitorCount env) 0,
      categories = categories_of (catch (getCachedCategories env) []) (catch (getCachedProductCategories env) []),
      categoryConfig = sorted_config (catch (getCachedCategories env) []),
      pendingOrders = pendingOrders_of env s,
      filters = \<lparr>f_q = Home_q (resolved_of sp),
                 f_category = (if Home_category (resolved_of sp) = [] then None else Some (Home_category (resolved_of sp))),
                 f_sort = Home_sort (resolved_of sp)\<rparr>,
      pagination = \<lparr>p_page = Home_page (resolved_of sp), p_pageSize = PAGE_SIZE,
                    p_total = total_of (productsResult env (resolved_of sp))\<rparr>\<rparr>"
  by (simp add: Home_def Let_def)

lemma Home_calls:
  "auth env = Resolved s \<Longrightarrow>
   fst (Home env sp) = first_calls (resolved_of sp)
      @ [CallProductRatings (sortedIds (products_of (productsResult env (resolved_of sp))))]
      @ (case productsWithRatings (ratingsMap env (products_of (productsResult env (resolved_of sp))))
                (products_of (productsResult env (resolved_of sp))) of
           None \<Rightarrow> []
         | Some enriched \<Rightarrow>
             (case session_user_id s of None \<Rightarrow> [] | Some i \<Rightarrow> [CallUserPendingOrders i]))"
  by (simp add: Home_def Let_def split: option.split)

text \<open>The handler raises exactly when the session read rejects or line 92 throws.\<close>

lemma Home_Rejected_iff:
  "snd (Home env sp) = Rejected \<longleftrightarrow>
     auth env = Rejected
     \<or> productsWithRatings (ratingsMap env (products_of (productsResult env (resolved_of sp))))
          (products_of (productsResult env (resolved_of sp))) = None"
  by (cases "auth env") (auto simp: Home_def Let_def split: option.splits)

lemma Home_ResolvedD:
  assumes "snd (Home env sp) = Resolved vm"
  obtains s enriched where "auth env = Resolved s"
    and "productsWithRatings (ratingsMap env (products_of (productsResult env (resolved_of sp))))
           (products_of (productsResult env (resolved_of sp))) = Some enriched"
    and "products vm = enriched"
    and "vm = \<lparr>products = enriched,
      announcement = catch (getCachedAnnouncement env) None,
      visitorCount = catch (getCachedVisitorCount env) 0,
      categories = categories_of (catch (getCachedCategories env) []) (catch (getCachedProductCategories env) []),
      categoryConfig = sorted_config (catch (getCachedCategories env) []),
      pendingOrders = pendingOrders_of env s,
      filters = \<lparr>f_q = Home_q (resolved_of sp),
                 f_category = (if Home_category (resolved_of sp) = [] then None else Some (Home_category (resolved_of sp))),
                 f_sort = Home_sort (resolved_of sp)\<rparr>,
      pagination = \<lparr>p_page = Home_page (resolved_of sp), p_pageSize = PAGE_SIZE,
                    p_total = total_of (productsResult env (resolved_of sp))\<rparr>\<rparr>"
proof (cases "auth env")
  case Rejected
  with assms show ?thesis by (simp add: Home_Rejected)
next
  case (Resolved s)
  show ?thesis
  proof (cases "productsWithRatings (ratingsMap env (products_of (productsResult env (resolved_of sp))))
           (products_of (productsResult env (resolved_of sp)))")
    case None
    with assms Resolved show ?thesis by (simp add: Home_throws)
  next
    case (Some enriched)
    from Home_Resolved [OF Resolved Some] assms that [OF Resolved Some] show ?thesis by simp
  qed
qed

text \<open>Line 92 throws exactly for a plain object and at least one product.\<close>

lemma productsWithRatings_None_iff:
  "productsWithRatings rv ps = None \<longleftrightarrow> rv = PlainObject \<and> ps \<noteq> []"
  by (simp add: productsWithRatings_def split: ratings_value.split)

lemma productsWithRatings_Nil: "productsWithRatings rv [] = Some []"
  by (simp add: productsWithRatings_def split: ratings_value.split)

lemma productsWithRatings_Map: "productsWithRatings (RatingsMap rm) ps = Some (map (enrich rm) ps)"
  by (simp add: productsWithRatings_def)

subsection \<open>Conversion of integers to doubles\<close>

lemma roundTiesToEven_small: "n < 2 ^ 53 \<Longrightarrow> roundTiesToEven n = n"
  by (simp add: roundTiesToEven_def)

lemma roundTiesToEven_lower:
  assumes "2 ^ 53 \<le> n"
  shows "2 ^ (floorlog 2 n - 1) \<le> roundTiesToEven n"
proof -
  define k where "k = floorlog 2 n"
  define e where "e = k - 53"
  have npos: "0 < n" using assms by (simp add: less_le_trans [of 0 "2 ^ 53" n])
  have k54: "54 \<le> k"
    unfolding k_def using assms by (intro floorlog_geI) simp_all
  have lo: "2 ^ (k - 1) \<le> n"
    unfolding k_def using floorlog_bounds [of n 2] npos by simp
  have "k - 1 = 52 + e" using k54 by (simp add: e_def)
  then have split: "(2::nat) ^ (k - 1) = 2 ^ 52 * 2 ^ e"
    by (simp only: power_add)
  have "2 ^ 52 * 2 ^ e div 2 ^ e \<le> n div 2 ^ e"
    using lo unfolding split by (rule div_le_mono)
  then have m: "2 ^ 52 \<le> n div 2 ^ e" by simp
  have "2 ^ 52 * 2 ^ e \<le> (n div 2 ^ e) * 2 ^ e"
    using m by (rule mult_le_mono1)
  moreover have "(n div 2 ^ e) * 2 ^ e \<le> (n div 2 ^ e + 1) * 2 ^ e"
    by simp
  ultimately show ?thesis
    using assms unfolding roundTiesToEven_def Let_def split [symmetric] k_def [symmetric] e_def [symmetric]
    by (auto simp: not_less split: if_splits)
qed

lemma roundTiesToEven_ge:
  assumes "53 \<le> j" "2 ^ j \<le> n"
  shows "2 ^ j \<le> roundTiesToEven n"
proof -
  have "(2::nat) ^ 53 \<le> 2 ^ j" by (rule power_increasing) (use assms(1) in simp_all)
  with assms(2) have n: "2 ^ 53 \<le> n" by linarith
  have "Suc j \<le> floorlog 2 n" using assms(2) by (intro floorlog_ge_SucI) simp_all
  then have "(2::nat) ^ j \<le> 2 ^ (floorlog 2 n - 1)" by (intro power_increasing) simp_all
  with roundTiesToEven_lower [OF n] show ?thesis by linarith
qed

lemma roundTiesToEven_pos: "0 < n \<Longrightarrow> 0 < roundTiesToEven n"
proof (cases "n < 2 ^ 53")
  case True
  moreover assume "0 < n"
  ultimately show ?thesis by (simp add: roundTiesToEven_small)
next
  case False
  then have "2 ^ 53 \<le> roundTiesToEven n"
    using roundTiesToEven_ge [of 53 n] by simp
  then show ?thesis by (simp add: less_le_trans [of 0 "2 ^ 53"])
qed

lemma toNumber_cases:
  "(0 < i \<and> (toNumber i = PosInf \<or> (\<exists>k\<ge>1. toNumber i = Num k)))
   \<or> (i = 0 \<and> toNumber i = Num 0)
   \<or> (i < 0 \<and> (toNumber i = NegInf \<or> (\<exists>k\<le>-1. toNumber i = Num k)))"
proof -
  consider "0 < i" | "i = 0" | "i < 0" by linarith
  then show ?thesis
  proof cases
    case 1
    then have "0 < roundTiesToEven (nat \<bar>i\<bar>)" by (intro roundTiesToEven_pos) simp
    with 1 show ?thesis by (auto simp: toNumber_def Let_def)
  next
    case 2
    then show ?thesis by (simp add: toNumber_def roundTiesToEven_small)
  next
    case 3
    then have "0 < roundTiesToEven (nat \<bar>i\<bar>)" by (intro roundTiesToEven_pos) simp
    with 3 show ?thesis by (auto simp: toNumber_def Let_def)
  qed
qed

lemma toNumber_exact: "\<bar>i\<bar> < 2 ^ 53 \<Longrightarrow> toNumber i = Num i"
proof -
  assume a: "\<bar>i\<bar> < 2 ^ 53"
  then have "nat \<bar>i\<bar> < 2 ^ 53" by (simp add: nat_less_iff)
  then have r: "roundTiesToEven (nat \<bar>i\<bar>) = nat \<bar>i\<bar>" by (rule roundTiesToEven_small)
  have "\<not> (2::nat) ^ 1024 \<le> nat \<bar>i\<bar>" using \<open>nat \<bar>i\<bar> < 2 ^ 53\<close> by simp
  then show ?thesis by (simp add: toNumber_def r Let_def mult_sgn_abs)
qed

lemma toNumber_overflow: "2 ^ 1024 \<le> i \<Longrightarrow> toNumber i = PosInf"
proof -
  assume a: "2 ^ 1024 \<le> i"
  then have "2 ^ 1024 \<le> nat \<bar>i\<bar>" by (simp add: le_nat_iff)
  then have "2 ^ 1024 \<le> roundTiesToEven (nat \<bar>i\<bar>)" by (intro roundTiesToEven_ge) simp_all
  moreover have "\<not> i < 0" using a by (simp add: not_less order_trans [of 0 "2 ^ 1024" i])
  ultimately show ?thesis by (simp add: toNumber_def Let_def)
qed

text \<open>\<open>toNumber\<close> keeps every integer below \<open>2 ^ 53\<close> and gives \<open>Infinity\<close> exactly from
  \<open>2 ^ 1024 - 2 ^ 970\<close> on, as the conversion of IEEE 754 does.\<close>

lemma floorlog_eq:
  assumes "2 ^ k \<le> n" "n < 2 ^ Suc k"
  shows "floorlog 2 n = Suc k"
proof -
  have "Suc k \<le> floorlog 2 n" using assms(1) by (intro floorlog_ge_SucI) simp_all
  moreover have "floorlog 2 n \<le> Suc k" using assms(2) by (intro floorlog_leI) simp_all
  ultimately show ?thesis by simp
qed

lemma roundTiesToEven_unfold:
  assumes "53 \<le> k" "2 ^ k \<le> n" "n < 2 ^ Suc k"
  shows "roundTiesToEven n =
     (if 2 ^ (k - 52) < 2 * (n mod 2 ^ (k - 52))
         \<or> (2 * (n mod 2 ^ (k - 52)) = 2 ^ (k - 52) \<and> odd (n div 2 ^ (k - 52)))
      then (n div 2 ^ (k - 52) + 1) * 2 ^ (k - 52) else (n div 2 ^ (k - 52)) * 2 ^ (k - 52))"
proof -
  have "(2::nat) ^ 53 \<le> 2 ^ k" by (rule power_increasing) (use assms(1) in simp_all)
  with assms(2) have "\<not> n < 2 ^ 53" by linarith
  moreover have "floorlog 2 n - 53 = k - 52" using floorlog_eq [OF assms(2,3)] assms(1) by simp
  ultimately show ?thesis by (simp only: roundTiesToEven_def Let_def if_False)
qed

lemma roundTiesToEven_upper:
  assumes "53 \<le> k" "2 ^ k \<le> n" "n < 2 ^ Suc k"
  shows "roundTiesToEven n \<le> 2 ^ Suc k"
proof -
  define E :: nat where "E = 2 ^ (k - 52)"
  have Epos: "0 < E" by (simp add: E_def)
  have "Suc k = 53 + (k - 52)" using assms(1) by simp
  then have pk: "(2::nat) ^ Suc k = 2 ^ 53 * E" unfolding E_def by (simp only: power_add)
  have "n div E < 2 ^ 53"
    using assms(3) Epos unfolding pk by (simp add: less_mult_imp_div_less)
  then have "n div E + 1 \<le> 2 ^ 53" by simp
  then have c1: "(n div E + 1) * E \<le> 2 ^ 53 * E" by (rule mult_le_mono1)
  have c0: "n div E * E \<le> (n div E + 1) * E" by simp
  from c0 c1 have c2: "n div E * E \<le> 2 ^ 53 * E" by (rule order_trans)
  have "roundTiesToEven n = (n div E + 1) * E \<or> roundTiesToEven n = n div E * E"
    unfolding roundTiesToEven_unfold [OF assms] E_def [symmetric] by auto
  then show ?thesis
    unfolding pk using c1 c2 by (elim disjE) (simp_all only:)
qed

lemma roundTiesToEven_top:
  assumes "2 ^ 1023 \<le> n" "n < 2 ^ 1024"
  shows "2 ^ 1024 \<le> roundTiesToEven n \<longleftrightarrow> 2 ^ 1024 - 2 ^ 970 \<le> n"
proof -
  define H :: nat where "H = 2 ^ 970"
  define M :: nat where "M = 2 ^ 53 - 1"
  define m where "m = n div (2 * H)"
  define r where "r = n mod (2 * H)"
  have Hpos: "0 < H" by (simp add: H_def)
  have E: "(2::nat) ^ (1023 - 52) = 2 * H" unfolding H_def by simp
  have "(1024::nat) = 53 + 971" by simp
  then have "(2::nat) ^ 1024 = 2 ^ 53 * 2 ^ 971" by (simp only: power_add)
  also have "(2::nat) ^ 971 = 2 * H" unfolding H_def by simp
  finally have top: "(2::nat) ^ 1024 = (M + 1) * (2 * H)" by (simp add: M_def)
  have oddM: "odd M" by (simp add: M_def)
  have n: "n = m * (2 * H) + r" and r: "r < 2 * H"
    using Hpos unfolding m_def r_def by (simp_all only: div_mult_mod_eq mod_less_divisor mult_pos_pos zero_less_numeral)
  have mM: "m \<le> M"
  proof -
    have "m < M + 1" using assms(2) Hpos unfolding top m_def
      by (simp add: less_mult_imp_div_less)
    then show ?thesis by simp
  qed
  have thr: "(2::nat) ^ 1024 - 2 ^ 970 = M * (2 * H) + H"
    unfolding top H_def [symmetric] by (simp add: algebra_simps)
  have u: "roundTiesToEven n =
      (if 2 * H < 2 * r \<or> (2 * r = 2 * H \<and> odd m) then (m + 1) * (2 * H) else m * (2 * H))"
    using roundTiesToEven_unfold [of 1023 n] assms unfolding E m_def r_def by simp
  have "(M + 1) * (2 * H) \<le> roundTiesToEven n \<longleftrightarrow> M * (2 * H) + H \<le> n"
  proof (cases "m = M")
    case True
    show ?thesis
      unfolding u using True oddM n r Hpos by (auto simp: algebra_simps)
  next
    case False
    with mM have lt: "m + 1 \<le> M" by simp
    then have a: "(m + 1) * (2 * H) \<le> M * (2 * H)" by (rule mult_le_mono1)
    have b: "M * (2 * H) < (M + 1) * (2 * H)" using Hpos by simp
    have c: "m * (2 * H) \<le> (m + 1) * (2 * H)" by simp
    have "roundTiesToEven n \<le> (m + 1) * (2 * H)"
      unfolding u using c by (simp only: split: if_splits) simp
    with a b have lhs: "\<not> (M + 1) * (2 * H) \<le> roundTiesToEven n"
      by linarith
    have "n < (m + 1) * (2 * H)" using n r by simp
    with a have "n < M * (2 * H) + H" by linarith
    then have rhs: "\<not> M * (2 * H) + H \<le> n" by simp
    show ?thesis using lhs rhs by simp
  qed
  then show ?thesis unfolding thr unfolding top .
qed

lemma roundTiesToEven_overflow_iff:
  "2 ^ 1024 \<le> roundTiesToEven n \<longleftrightarrow> 2 ^ 1024 - 2 ^ 970 \<le> n"
proof -
  consider "n < 2 ^ 53" | "2 ^ 53 \<le> n" "n < 2 ^ 1023" | "2 ^ 1023 \<le> n" "n < 2 ^ 1024" | "2 ^ 1024 \<le> n"
    by linarith
  then show ?thesis
  proof cases
    case 1
    then have "roundTiesToEven n = n" by (rule roundTiesToEven_small)
    moreover have "(2::nat) ^ 53 < 2 ^ 1024 - 2 ^ 970" by simp
    moreover have "(2::nat) ^ 53 < 2 ^ 1024" by simp
    ultimately show ?thesis using 1 by linarith
  next
    case 2
    define k where "k = floorlog 2 n - 1"
    have npos: "0 < n" using 2(1) by (simp add: less_le_trans [of 0 "2 ^ 53" n])
    have k1: "54 \<le> floorlog 2 n" using 2(1) by (intro floorlog_geI) simp_all
    then have sk: "Suc k = floorlog 2 n" by (simp add: k_def)
    have b: "2 ^ k \<le> n" "n < 2 ^ Suc k"
      using floorlog_bounds [of n 2] npos unfolding sk by (simp_all add: k_def)
    have "floorlog 2 n \<le> 1023" using 2(2) by (intro floorlog_leI) simp_all
    then have "Suc k \<le> 1023" unfolding sk .
    then have "(2::nat) ^ Suc k \<le> 2 ^ 1023" by (intro power_increasing) simp_all
    moreover have "53 \<le> k" using k1 by (simp add: k_def)
    from roundTiesToEven_upper [OF this b] have "roundTiesToEven n \<le> 2 ^ Suc k" .
    moreover have "(2::nat) ^ 1023 < 2 ^ 1024" by simp
    moreover have "(2::nat) ^ 1023 < 2 ^ 1024 - 2 ^ 970" by simp
    ultimately show ?thesis using 2(2) by linarith
  next
    case 3
    then show ?thesis by (rule roundTiesToEven_top)
  next
    case 4
    then have "2 ^ 1024 \<le> roundTiesToEven n" by (intro roundTiesToEven_ge) simp_all
    moreover have "(2::nat) ^ 1024 - 2 ^ 970 \<le> 2 ^ 1024" by simp
    ultimately show ?thesis using 4 by linarith
  qed
qed

lemma toNumber_PosInf_iff: "toNumber i = PosInf \<longleftrightarrow> 2 ^ 1024 - 2 ^ 970 \<le> i"
proof -
  have t: "int ((2::nat) ^ 1024 - 2 ^ 970) = 2 ^ 1024 - 2 ^ 970" by simp
  have "2 ^ 1024 - 2 ^ 970 \<le> nat \<bar>i\<bar> \<longleftrightarrow> int (2 ^ 1024 - 2 ^ 970) \<le> \<bar>i\<bar>"
    by (rule le_nat_iff) simp
  then have "2 ^ 1024 - 2 ^ 970 \<le> nat \<bar>i\<bar> \<longleftrightarrow> (2 ^ 1024 - 2 ^ 970 \<le> \<bar>i\<bar>)"
    unfolding t .
  moreover have "(0::int) < 2 ^ 1024 - 2 ^ 970" by simp
  ultimately show ?thesis
    unfolding toNumber_def Let_def roundTiesToEven_overflow_iff
    by (auto split: if_splits)
qed

lemma mathInt_nonneg:
  assumes "\<forall>c \<in> set Z. isDigit c" and "0 \<le> a"
  shows "0 \<le> foldl (\<lambda>acc c. acc * 10 + (uint c - 48)) a Z"
  using assms
proof (induction Z arbitrary: a)
  case Nil
  then show ?case by simp
next
  case (Cons c Z)
  from Cons.prems(1) have "(0x30 :: code_unit) \<le> c" by (simp add: isDigit_def)
  then have "48 \<le> uint c" by (simp add: word_le_def)
  with Cons.prems(2) have "0 \<le> a * 10 + (uint c - 48)" by simp
  with Cons.IH [of "a * 10 + (uint c - 48)"] Cons.prems(1) show ?case by simp
qed

lemma parseInt_digits_digits: "\<forall>c \<in> set (parseInt_digits s). isDigit c"
  by (auto simp: parseInt_digits_def Let_def dest: set_takeWhileD)

lemma mathInt_parseInt_digits_nonneg: "0 \<le> mathInt (parseInt_digits s)"
  unfolding mathInt_def by (rule mathInt_nonneg [OF parseInt_digits_digits]) simp

lemma mathInt_Nil: "mathInt [] = 0"
  by (simp add: mathInt_def)

lemma parseInt_sign_cases: "parseInt_sign s = 1 \<or> parseInt_sign s = - 1"
  by (simp add: parseInt_sign_def Let_def)

text \<open>\<open>parseInt\<close> gives \<open>Infinity\<close> exactly for an unsigned or plus-signed run of digits
  whose value is at least \<open>2 ^ 1024 - 2 ^ 970\<close>, and the value itself below \<open>2 ^ 53\<close>.\<close>

lemma parseInt_PosInf_iff:
  "parseInt s = PosInf \<longleftrightarrow>
     parseInt_sign s = 1 \<and> 2 ^ 1024 - 2 ^ 970 \<le> mathInt (parseInt_digits s)"
proof (cases "parseInt_digits s = []")
  case True
  have "\<not> (2::int) ^ 1024 - 2 ^ 970 \<le> 0" by simp
  with True show ?thesis by (simp add: parseInt_def mathInt_Nil)
next
  case False
  then have p: "parseInt s = toNumber (parseInt_sign s * mathInt (parseInt_digits s))"
    by (simp add: parseInt_def Let_def)
  have pos: "(0::int) < 2 ^ 1024 - 2 ^ 970" by simp
  from parseInt_sign_cases [of s] show ?thesis
  proof
    assume "parseInt_sign s = 1"
    then show ?thesis unfolding p toNumber_PosInf_iff by simp
  next
    assume m: "parseInt_sign s = - 1"
    with mathInt_parseInt_digits_nonneg [of s]
    have "parseInt_sign s * mathInt (parseInt_digits s) \<le> 0" by simp
    with pos have "\<not> 2 ^ 1024 - 2 ^ 970 \<le> parseInt_sign s * mathInt (parseInt_digits s)"
      by linarith
    with m show ?thesis unfolding p toNumber_PosInf_iff by simp
  qed
qed

lemma parseInt_exact:
  assumes "parseInt_digits s \<noteq> []" and "mathInt (parseInt_digits s) < 2 ^ 53"
  shows "parseInt s = Num (parseInt_sign s * mathInt (parseInt_digits s))"
proof -
  have "\<bar>parseInt_sign s * mathInt (parseInt_digits s)\<bar> = mathInt (parseInt_digits s)"
    using parseInt_sign_cases [of s] mathInt_parseInt_digits_nonneg [of s] by auto
  with assms(2) have "toNumber (parseInt_sign s * mathInt (parseInt_digits s))
      = Num (parseInt_sign s * mathInt (parseInt_digits s))"
    by (intro toNumber_exact) simp
  with assms(1) show ?thesis by (simp add: parseInt_def Let_def)
qed

subsection \<open>The page\<close>

lemma parseInt_one: "parseInt (js ''1'') = Num 1"
  by (simp add: parseInt_def parseInt_sign_def parseInt_digits_def js_def isWhiteSpace_def
      isLineTerminator_def isDigit_def mathInt_def toNumber_exact)

lemma Home_page_cases:
  "Home_page r =
     (case get_param r (js ''page'') of
        PString s \<Rightarrow>
          (case parseInt s of
             NaN \<Rightarrow> Num 1 | NegInf \<Rightarrow> Num 1 | Num n \<Rightarrow> Num (max 1 n) | PosInf \<Rightarrow> PosInf)
      | PArray xs \<Rightarrow> Num 1
      | PUndefined \<Rightarrow> Num 1)"
  by (simp add: Home_page_def string_or_def parseInt_one or_num_def split: param.split jsnum.split)

lemma Home_page_range: "Home_page r = PosInf \<or> (\<exists>n\<ge>1. Home_page r = Num n)"
  unfolding Home_page_cases by (simp split: param.split jsnum.split)

lemma env_down_auth: "auth env_down = Resolved None"
  by (simp add: env_down_def)

lemma env_down_products: "products_of (productsResult env_down r) = []"
  by (simp add: productsResult_def env_down_def catch_def products_of_def)

lemma Home_returns_no_products:
  assumes "auth env = Resolved s" and "products_of (productsResult env (resolved_of sp)) = []"
  obtains vm where "snd (Home env sp) = Resolved vm"
proof -
  have "productsWithRatings (ratingsMap env (products_of (productsResult env (resolved_of sp))))
      (products_of (productsResult env (resolved_of sp))) = Some []"
    by (simp add: assms(2) productsWithRatings_Nil)
  from Home_Resolved [OF assms(1) this] that show ?thesis by blast
qed

lemma env_down_returns:
  obtains vm where "snd (Home env_down sp) = Resolved vm"
  using Home_returns_no_products [OF env_down_auth env_down_products] by blast

lemma parseInt_7: "parseInt (js ''7'') = Num 7"
  by (simp add: parseInt_def parseInt_sign_def parseInt_digits_def js_def isWhiteSpace_def
      isLineTerminator_def isDigit_def mathInt_def toNumber_exact)

lemma mathInt_zeros:
  "foldl (\<lambda>acc c. acc * 10 + (uint c - 48)) a (replicate n (0x30 :: code_unit)) = a * 10 ^ n"
  by (induction n arbitrary: a) simp_all

lemma parseInt_overflow: "parseInt (0x31 # replicate 309 0x30) = PosInf"
proof -
  have d: "parseInt_digits (0x31 # replicate 309 0x30) = 0x31 # replicate 309 0x30"
    by (simp add: parseInt_digits_def isWhiteSpace_def isLineTerminator_def isDigit_def)
  have s: "parseInt_sign (0x31 # replicate 309 0x30) = 1"
    by (simp add: parseInt_sign_def isWhiteSpace_def isLineTerminator_def)
  have "mathInt (0x31 # replicate 309 0x30) = 10 ^ 309"
    by (simp add: mathInt_def mathInt_zeros)
  moreover have "(2::int) ^ 1024 - 2 ^ 970 \<le> 10 ^ 309" by simp
  ultimately show ?thesis
    unfolding parseInt_PosInf_iff d s by simp
qed

lemma trim_Nil: "trim [] = []"
  by (simp add: trim_def)

lemma trim_default: "trim (js ''default'') = js ''default''"
  by (simp add: trim_def js_def isWhiteSpace_def isLineTerminator_def)

text \<open>
  C5, as stated, fails: a page parameter of 310 digits, a one and 309 zeros, is beyond the
  range of a double, \<open>Number.parseInt\<close> returns \<open>Infinity\<close>, which is truthy and the
  larger argument of \<open>Math.max\<close>; the page of the returned pagination is \<open>Infinity\<close>,
  which is no integer.
\<close>

theorem C5_page_counterexample:
  "snd (Home env_down (Some [js ''page'' \<mapsto> PString (0x31 # replicate 309 0x30)])) =
     Resolved
       \<lparr>products = [], announcement = None, visitorCount = 0, categories = [],
        categoryConfig = [], pendingOrders = [],
        filters = \<lparr>f_q = [], f_category = None, f_sort = js ''default''\<rparr>,
        pagination = \<lparr>p_page = PosInf, p_pageSize = 24, p_total = 0\<rparr>\<rparr>"
proof -
  let ?m = "[js ''page'' \<mapsto> PString (0x31 # replicate 309 0x30)]"
  have keys: "js ''q'' \<noteq> js ''page''" "js ''category'' \<noteq> js ''page''" "js ''sort'' \<noteq> js ''page''"
    by (simp_all add: js_def)
  have page: "Home_page ?m = PosInf"
    by (simp add: Home_page_cases get_param_def parseInt_overflow)
  have q: "Home_q ?m = []"
    by (simp add: Home_q_def get_param_def string_or_def keys trim_Nil)
  have category: "Home_category ?m = []"
    by (simp add: Home_category_def categoryParam_def get_param_def string_or_def keys trim_Nil)
  have sort: "Home_sort ?m = js ''default''"
    by (simp add: Home_sort_def get_param_def string_or_def keys trim_default)
  have result: "productsResult env_down ?m =
      \<lparr>items = Some [], total = Some 0, res_page = PosInf, res_pageSize = 24\<rparr>"
    by (simp add: productsResult_def env_down_def catch_def page PAGE_SIZE_def)
  have "productsWithRatings (ratingsMap env_down (products_of (productsResult env_down (resolved_of (Some ?m)))))
      (products_of (productsResult env_down (resolved_of (Some ?m)))) = Some []"
    by (simp add: env_down_products productsWithRatings_Nil)
  note H = Home_Resolved [OF env_down_auth this]
  show ?thesis
    unfolding H
    by (simp add: resolved_of_def page q category sort result total_of_def
        categories_of_def categoryNames_def extraCategories_def
        sorted_config_def pendingOrders_of_def session_user_id_def PAGE_SIZE_def)
      (simp add: env_down_def catch_def)
qed

text \<open>
  C5, amended: for every request-parameter mapping the page of the returned pagination is
  at least 1 and is an integer or \<open>Infinity\<close>. It is 1 when the raw page parameter is
  missing, is not a single string, has no leading integer (\<open>parseInt\<close> gives NaN), or
  parses to zero or a negative value; otherwise it is what \<open>parseInt\<close> returns: the value
  of the parameter's run of digits itself when that is below \<open>2 ^ 53\<close>, and \<open>Infinity\<close>
  exactly when the run, unsigned or after a plus sign, has a value of at least
  \<open>2 ^ 1024 - 2 ^ 970\<close>.
\<close>

theorem C5_page:
  assumes "snd (Home env sp) = Resolved vm"
  shows "(p_page (pagination vm) = PosInf \<or> (\<exists>n\<ge>1. p_page (pagination vm) = Num n)) \<and>
         p_page (pagination vm) =
           (case get_param (resolved_of sp) (js ''page'') of
              PString s \<Rightarrow>
                (case parseInt s of
                   NaN \<Rightarrow> Num 1 | NegInf \<Rightarrow> Num 1 | Num n \<Rightarrow> Num (max 1 n) | PosInf \<Rightarrow> PosInf)
            | PArray xs \<Rightarrow> Num 1
            | PUndefined \<Rightarrow> Num 1)
       \<and> (p_page (pagination vm) = PosInf \<longleftrightarrow>
            (\<exists>s. get_param (resolved_of sp) (js ''page'') = PString s \<and> parseInt_sign s = 1
               \<and> 2 ^ 1024 - 2 ^ 970 \<le> mathInt (parseInt_digits s)))
       \<and> (\<forall>s. get_param (resolved_of sp) (js ''page'') = PString s \<and> parseInt_sign s = 1
               \<and> 0 < mathInt (parseInt_digits s) \<and> mathInt (parseInt_digits s) < 2 ^ 53
             \<longrightarrow> p_page (pagination vm) = Num (mathInt (parseInt_digits s)))"
proof -
  let ?r = "resolved_of sp"
  from assms have p: "p_page (pagination vm) = Home_page ?r"
    by (rule Home_ResolvedD) simp
  have inf: "Home_page ?r = PosInf \<longleftrightarrow>
      (\<exists>s. get_param ?r (js ''page'') = PString s \<and> parseInt_sign s = 1
         \<and> 2 ^ 1024 - 2 ^ 970 \<le> mathInt (parseInt_digits s))"
    unfolding Home_page_cases parseInt_PosInf_iff [symmetric]
    by (auto split: param.splits jsnum.splits)
  have exact: "Home_page ?r = Num (mathInt (parseInt_digits s))"
    if "get_param ?r (js ''page'') = PString s" "parseInt_sign s = 1"
      "0 < mathInt (parseInt_digits s)" "mathInt (parseInt_digits s) < 2 ^ 53" for s
  proof -
    from that(3) have "parseInt_digits s \<noteq> []" by (auto simp: mathInt_Nil)
    from parseInt_exact [OF this that(4)] that(2)
    have "parseInt s = Num (mathInt (parseInt_digits s))" by simp
    with that(1,3) show ?thesis unfolding Home_page_cases by simp
  qed
  show ?thesis
    unfolding p
    using Home_page_range [of ?r] Home_page_cases [of ?r] inf exact by blast
qed

theorem C5_page_witness:
  "\<exists>vm. snd (Home env_down (Some [js ''page'' \<mapsto> PString (js ''7'')])) = Resolved vm
     \<and> p_page (pagination vm) = Num 7"
proof -
  let ?sp = "Some [js ''page'' \<mapsto> PString (js ''7'')]"
  obtain vm where vm: "snd (Home env_down ?sp) = Resolved vm" by (rule env_down_returns)
  have g: "get_param (resolved_of ?sp) (js ''page'') = PString (js ''7'')"
    by (simp add: get_param_def resolved_of_def)
  have "parseInt_sign (js ''7'') = 1" "mathInt (parseInt_digits (js ''7'')) = 7"
    by (simp_all add: parseInt_sign_def parseInt_digits_def js_def isWhiteSpace_def
        isLineTerminator_def isDigit_def mathInt_def)
  with g have "get_param (resolved_of ?sp) (js ''page'') = PString (js ''7'')
      \<and> parseInt_sign (js ''7'') = 1 \<and> 0 < mathInt (parseInt_digits (js ''7''))
      \<and> mathInt (parseInt_digits (js ''7'')) < 2 ^ 53"
    by simp
  with C5_page [OF vm, THEN conjunct2, THEN conjunct2, THEN conjunct2, THEN spec, of "js ''7''"]
  have "p_page (pagination vm) = Num (mathInt (parseInt_digits (js ''7'')))" by (rule mp)
  then have "p_page (pagination vm) = Num 7"
    using \<open>mathInt (parseInt_digits (js ''7'')) = 7\<close> by simp
  with vm show ?thesis by blast
qed

subsection \<open>The category filter\<close>

text \<open>
  C6: for every request-parameter mapping the category of the returned filters is null
  when the raw category parameter is missing or is not a single string, or when its
  trimmed value is empty or \<open>all\<close>; otherwise it is the raw string, trimmed.
\<close>

theorem C6_category:
  assumes "snd (Home env sp) = Resolved vm"
  shows "f_category (filters vm) =
           (case get_param (resolved_of sp) (js ''category'') of
              PString s \<Rightarrow> if trim s = [] \<or> trim s = js ''all'' then None else Some (trim s)
            | PArray xs \<Rightarrow> None
            | PUndefined \<Rightarrow> None)"
proof -
  from assms have "f_category (filters vm) =
      (if Home_category (resolved_of sp) = [] then None else Some (Home_category (resolved_of sp)))"
    by (rule Home_ResolvedD) simp
  then show ?thesis
    by (simp add: Home_category_def categoryParam_def string_or_def trim_Nil split: param.split)
qed

theorem C6_category_witness:
  "\<exists>vm. snd (Home env_down (Some [js ''category'' \<mapsto> PString (js '' books '')])) = Resolved vm
     \<and> f_category (filters vm) = Some (js ''books'')"
proof -
  let ?sp = "Some [js ''category'' \<mapsto> PString (js '' books '')]"
  obtain vm where vm: "snd (Home env_down ?sp) = Resolved vm" by (rule env_down_returns)
  have "get_param (resolved_of ?sp) (js ''category'') = PString (js '' books '')"
    by (simp add: get_param_def resolved_of_def)
  moreover have "trim (js '' books '') = js ''books''"
    by (simp add: trim_def js_def isWhiteSpace_def isLineTerminator_def)
  moreover have "js ''books'' \<noteq> []" "js ''books'' \<noteq> js ''all''"
    by (simp_all add: js_def)
  ultimately have "f_category (filters vm) = Some (js ''books'')"
    using C6_category [OF vm] by simp
  with vm show ?thesis by blast
qed

subsection \<open>Pending orders\<close>

lemma session_user_id_None_iff:
  "session_user_id s = None \<longleftrightarrow>
     s = None \<or> (\<exists>s'. s = Some s' \<and>
        (user s' = None \<or> (\<exists>u. user s' = Some u \<and> (user_id u = None \<or> user_id u = Some []))))"
  by (auto simp: session_user_id_def split: option.splits if_splits)

text \<open>
  C7: when the session read resolves without an authenticated user (no session, a session
  without a user, or a user without a truthy id), no pending-orders read is among the
  reads that \<open>Home\<close> issues, and the pending orders of every view model it returns are
  empty. It returns one unless line 92 throws.
\<close>

theorem C7_no_user_no_pending_read:
  assumes "auth env = Resolved s" and "session_user_id s = None"
  shows "(\<forall>i. CallUserPendingOrders i \<notin> set (fst (Home env sp)))
       \<and> (\<forall>vm. snd (Home env sp) = Resolved vm \<longrightarrow> pendingOrders vm = [])
       \<and> ((\<exists>vm. snd (Home env sp) = Resolved vm) \<longleftrightarrow>
            \<not> (ratingsMap env (products_of (productsResult env (resolved_of sp))) = PlainObject
               \<and> products_of (productsResult env (resolved_of sp)) \<noteq> []))"
proof -
  have "\<forall>i. CallUserPendingOrders i \<notin> set (fst (Home env sp))"
    by (simp add: Home_calls [OF assms(1)] assms(2) first_calls_def split: option.split)
  moreover have "pendingOrders vm = []" if "snd (Home env sp) = Resolved vm" for vm
  proof -
    from that have "pendingOrders vm = pendingOrders_of env s"
      by (rule Home_ResolvedD) (use assms(1) in simp)
    then show ?thesis by (simp add: pendingOrders_of_def assms(2))
  qed
  moreover have "(\<exists>vm. snd (Home env sp) = Resolved vm) \<longleftrightarrow>
      \<not> (ratingsMap env (products_of (productsResult env (resolved_of sp))) = PlainObject
         \<and> products_of (productsResult env (resolved_of sp)) \<noteq> [])"
  proof -
    have "(\<exists>vm. snd (Home env sp) = Resolved vm) \<longleftrightarrow> snd (Home env sp) \<noteq> Rejected"
      by (cases "snd (Home env sp)") simp_all
    then show ?thesis
      unfolding Home_Rejected_iff productsWithRatings_None_iff using assms(1) by simp
  qed
  ultimately show ?thesis by blast
qed

theorem C7_no_user_no_pending_read_witness:
  "session_user_id (Some \<lparr>user = Some \<lparr>user_id = Some []\<rparr>\<rparr>) = None
   \<and> (\<exists>vm. snd (Home env_orders None) = Resolved vm \<and> pendingOrders vm = []
         \<and> (\<forall>i. CallUserPendingOrders i \<notin> set (fst (Home env_orders None))))"
proof -
  have a: "auth env_orders = Resolved (Some \<lparr>user = Some \<lparr>user_id = Some []\<rparr>\<rparr>)"
    by (simp add: env_orders_def)
  have n: "session_user_id (Some \<lparr>user = Some \<lparr>user_id = Some []\<rparr>\<rparr>) = None"
    by (simp add: session_user_id_def)
  have ps: "products_of (productsResult env_orders (resolved_of None)) = []"
    by (simp add: productsResult_def env_orders_def env_down_def catch_def products_of_def)
  note C = C7_no_user_no_pending_read [OF a n, of None]
  from C ps obtain vm where vm: "snd (Home env_orders None) = Resolved vm" by auto
  with C have "pendingOrders vm = []" by blast
  moreover from C have "\<forall>i. CallUserPendingOrders i \<notin> set (fst (Home env_orders None))"
    by (rule conjunct1)
  ultimately show ?thesis using n vm by blast
qed

subsection \<open>Ratings\<close>

lemma enrich_product_id: "product_id (enrich rm p) = product_id p"
  by (simp add: enrich_def Let_def)

lemma enrich_unrated:
  "rm (product_id p) = None \<Longrightarrow> rating (enrich rm p) = 0 \<and> reviewCount (enrich rm p) = 0"
  by (simp add: enrich_def)

lemma enrich_rated:
  "rm (product_id p) = Some v \<Longrightarrow>
     rating (enrich rm p) = average v \<and> reviewCount (enrich rm p) = count v"
  by (simp add: enrich_def)

lemma productsWithRatings_unrated:
  assumes "productsWithRatings (RatingsMap rm) ps = Some enriched"
    and "e \<in> set enriched" and "rm (product_id e) = None"
  shows "rating e = 0 \<and> reviewCount e = 0"
proof -
  from assms(1,2) obtain p where p: "p \<in> set ps" "e = enrich rm p"
    by (auto simp: productsWithRatings_def)
  with assms(3) have "rm (product_id p) = None" by (simp add: enrich_product_id)
  with p(2) show ?thesis by (simp add: enrich_unrated)
qed

lemma productsWithRatings_ids:
  "productsWithRatings rv ps = Some enriched \<Longrightarrow> map product_id enriched = map product_id ps"
  by (auto simp: productsWithRatings_def enrich_product_id split: ratings_value.splits if_splits)

lemma ratingsMap_Rejected:
  "getProductRatings env (sortedIds ps) = Rejected \<Longrightarrow> ratingsMap env ps = RatingsMap Map.empty"
  by (simp add: ratingsMap_def catch_def)

lemma ratingsMap_Resolved:
  "getProductRatings env (sortedIds ps) = Resolved rv \<Longrightarrow> ratingsMap env ps = rv"
  by (simp add: ratingsMap_def catch_def)

lemma Home_products:
  assumes "snd (Home env sp) = Resolved vm"
  shows "productsWithRatings (ratingsMap env (products_of (productsResult env (resolved_of sp))))
             (products_of (productsResult env (resolved_of sp))) = Some (products vm)"
  using assms by (rule Home_ResolvedD) simp

text \<open>
  C3: in a returned view model, when the ratings read rejected every product has rating 0
  and review count 0; when it resolved to a mapping, every product whose id the mapping
  lacks has rating 0 and review count 0. The products of the view model are the products
  of the search result, in order.
\<close>

theorem C3_ratings_default:
  assumes "snd (Home env sp) = Resolved vm"
  shows "(getProductRatings env (sortedIds (products_of (productsResult env (resolved_of sp)))) = Rejected
            \<longrightarrow> (\<forall>e \<in> set (products vm). rating e = 0 \<and> reviewCount e = 0))
         \<and> (\<forall>rm. getProductRatings env (sortedIds (products_of (productsResult env (resolved_of sp))))
                  = Resolved (RatingsMap rm)
            \<longrightarrow> (\<forall>e \<in> set (products vm). rm (product_id e) = None \<longrightarrow> rating e = 0 \<and> reviewCount e = 0))
         \<and> map product_id (products vm) = map product_id (products_of (productsResult env (resolved_of sp)))"
proof -
  let ?ps = "products_of (productsResult env (resolved_of sp))"
  note P = Home_products [OF assms]
  have "\<forall>e \<in> set (products vm). rating e = 0 \<and> reviewCount e = 0"
    if "getProductRatings env (sortedIds ?ps) = Rejected"
    using productsWithRatings_unrated [of Map.empty ?ps "products vm"]
      P [unfolded ratingsMap_Rejected [OF that]] by simp
  moreover have "\<forall>e \<in> set (products vm). rm (product_id e) = None \<longrightarrow> rating e = 0 \<and> reviewCount e = 0"
    if "getProductRatings env (sortedIds ?ps) = Resolved (RatingsMap rm)" for rm
    using productsWithRatings_unrated [of rm ?ps "products vm"]
      P [unfolded ratingsMap_Resolved [OF that]] by simp
  moreover have "map product_id (products vm) = map product_id ?ps"
    using P by (rule productsWithRatings_ids)
  ultimately show ?thesis by blast
qed

lemma env_shop_unrated_auth:
  "auth env_shop_unrated = Resolved (Some \<lparr>user = Some \<lparr>user_id = Some (js ''u1'')\<rparr>\<rparr>)"
  by (simp add: env_shop_unrated_def env_shop_def)

lemma env_shop_unrated_products:
  "products_of (productsResult env_shop_unrated r) = [product_b, product_a]"
  by (simp add: env_shop_unrated_def env_shop_def productsResult_def catch_def products_of_def)

theorem C3_ratings_default_witness:
  "\<exists>vm. snd (Home env_shop_unrated None) = Resolved vm
     \<and> map product_id (products vm) = [js ''b'', js ''a'']
     \<and> list_all (\<lambda>e. rating e = 0 \<and> reviewCount e = 0) (products vm)"
proof -
  have "ratingsMap env_shop_unrated (products_of (productsResult env_shop_unrated (resolved_of None)))
      = RatingsMap Map.empty"
    by (simp add: ratingsMap_def env_shop_unrated_def catch_def)
  then have "productsWithRatings
      (ratingsMap env_shop_unrated (products_of (productsResult env_shop_unrated (resolved_of None))))
      (products_of (productsResult env_shop_unrated (resolved_of None)))
      = Some (map (enrich Map.empty) (products_of (productsResult env_shop_unrated (resolved_of None))))"
    by (simp only: productsWithRatings_Map)
  from Home_Resolved [OF env_shop_unrated_auth this]
  obtain vm where vm: "snd (Home env_shop_unrated None) = Resolved vm" by blast
  have "getProductRatings env_shop_unrated
          (sortedIds (products_of (productsResult env_shop_unrated (resolved_of None)))) = Rejected"
    by (simp add: env_shop_unrated_def)
  with C3_ratings_default [OF vm]
  have "\<forall>e \<in> set (products vm). rating e = 0 \<and> reviewCount e = 0"
    and "map product_id (products vm) = [js ''b'', js ''a'']"
    by (simp_all add: env_shop_unrated_products product_a_def product_b_def)
  with vm show ?thesis by (auto simp: list_all_iff)
qed

subsection \<open>A search read that rejects\<close>

lemma productsResult_Rejected:
  "searchActiveProducts env (Home_args r) = Rejected \<Longrightarrow>
     productsResult env r =
       \<lparr>items = Some [], total = Some 0, res_page = Home_page r, res_pageSize = PAGE_SIZE\<rparr>"
  by (simp add: productsResult_def catch_def)

text \<open>
  C4: when the session read resolves and the search read rejects, \<open>Home\<close> returns a view
  model with no products and a total of 0; the search result is replaced by the empty
  result that carries the requested page and page size, and the pagination of the view
  model has the page and the page size (24) that were requested of the search.
\<close>

theorem C4_search_fallback:
  assumes "auth env = Resolved s"
    and "searchActiveProducts env (Home_args (resolved_of sp)) = Rejected"
  shows "\<exists>vm. snd (Home env sp) = Resolved vm
           \<and> products vm = [] \<and> p_total (pagination vm) = 0
           \<and> p_page (pagination vm) = arg_page (Home_args (resolved_of sp))
           \<and> p_pageSize (pagination vm) = arg_pageSize (Home_args (resolved_of sp))
           \<and> p_pageSize (pagination vm) = 24
           \<and> productsResult env (resolved_of sp) =
               \<lparr>items = Some [], total = Some 0,
                res_page = arg_page (Home_args (resolved_of sp)), res_pageSize = 24\<rparr>"
proof -
  note r = productsResult_Rejected [OF assms(2)]
  have ps: "products_of (productsResult env (resolved_of sp)) = []"
    by (simp add: r products_of_def)
  then have "productsWithRatings (ratingsMap env (products_of (productsResult env (resolved_of sp))))
      (products_of (productsResult env (resolved_of sp))) = Some []"
    by (simp add: productsWithRatings_Nil)
  from Home_Resolved [OF assms(1) this] show ?thesis
    by (simp add: r total_of_def Home_args_def PAGE_SIZE_def)
qed

theorem C4_search_fallback_witness:
  "\<exists>vm. snd (Home env_shop_nosearch (Some [js ''page'' \<mapsto> PString (js ''7'')])) = Resolved vm
     \<and> products vm = [] \<and> p_total (pagination vm) = 0
     \<and> p_page (pagination vm) = Num 7 \<and> p_pageSize (pagination vm) = 24"
proof -
  let ?sp = "Some [js ''page'' \<mapsto> PString (js ''7'')]"
  have a: "auth env_shop_nosearch = Resolved (Some \<lparr>user = Some \<lparr>user_id = Some (js ''u1'')\<rparr>\<rparr>)"
    by (simp add: env_shop_nosearch_def env_shop_def)
  have b: "searchActiveProducts env_shop_nosearch (Home_args (resolved_of ?sp)) = Rejected"
    by (simp add: env_shop_nosearch_def)
  have "arg_page (Home_args (resolved_of ?sp)) = Num 7"
    by (simp add: Home_args_def Home_page_cases resolved_of_def get_param_def parseInt_7)
  with C4_search_fallback [OF a b] show ?thesis by auto
qed

subsection \<open>Every optional read has its fallback\<close>

lemma categories_of_Nil: "categories_of [] pcs = sort pcs"
  by (simp add: categories_of_def categoryNames_def extraCategories_def sorted_config_def)

lemma categories_of_Nil2: "categories_of cfg [] = map name (sorted_config cfg)"
  by (simp add: categories_of_def categoryNames_def extraCategories_def)

lemma sorted_config_Nil: "sorted_config [] = []"
  by (simp add: sorted_config_def)

text \<open>
  When the session read resolves and line 92 does not throw, \<open>Home\<close> returns, and each
  optional read that rejects is replaced by its fallback: no products and total 0 for the
  search, null for the announcement, 0 for the visitor count, an empty category
  configuration, an empty list of product categories, ratings of 0 for every product, and
  no pending orders.
\<close>

lemma Home_fallbacks:
  assumes "auth env = Resolved s"
    and "\<not> (ratingsMap env (products_of (productsResult env (resolved_of sp))) = PlainObject
            \<and> products_of (productsResult env (resolved_of sp)) \<noteq> [])"
  shows "\<exists>vm. snd (Home env sp) = Resolved vm
      \<and> (searchActiveProducts env (Home_args (resolved_of sp)) = Rejected
            \<longrightarrow> products vm = [] \<and> p_total (pagination vm) = 0)
      \<and> (getCachedAnnouncement env = Rejected \<longrightarrow> announcement vm = None)
      \<and> (getCachedVisitorCount env = Rejected \<longrightarrow> visitorCount vm = 0)
      \<and> (getCachedCategories env = Rejected
            \<longrightarrow> categoryConfig vm = []
                \<and> categories vm = sort (catch (getCachedProductCategories env) []))
      \<and> (getCachedProductCategories env = Rejected
            \<longrightarrow> categories vm = map name (categoryConfig vm))
      \<and> (getProductRatings env (sortedIds (products_of (productsResult env (resolved_of sp)))) = Rejected
            \<longrightarrow> (\<forall>e \<in> set (products vm). rating e = 0 \<and> reviewCount e = 0))
      \<and> ((\<forall>i. session_user_id s = Some i \<longrightarrow> getUserPendingOrders env i = Rejected)
            \<longrightarrow> pendingOrders vm = [])"
proof -
  let ?r = "resolved_of sp"
  let ?ps = "products_of (productsResult env ?r)"
  from assms(2) obtain enriched where e: "productsWithRatings (ratingsMap env ?ps) ?ps = Some enriched"
    using productsWithRatings_None_iff [of "ratingsMap env ?ps" ?ps] by auto
  have search: "enriched = [] \<and> total_of (productsResult env ?r) = 0"
    if "searchActiveProducts env (Home_args ?r) = Rejected"
    using e by (simp add: productsResult_Rejected [OF that] products_of_def total_of_def
        productsWithRatings_Nil)
  have ratings: "\<forall>x \<in> set enriched. rating x = 0 \<and> reviewCount x = 0"
    if "getProductRatings env (sortedIds ?ps) = Rejected"
    using productsWithRatings_unrated [of Map.empty ?ps enriched]
      e [unfolded ratingsMap_Rejected [OF that]] by simp
  have pending: "pendingOrders_of env s = []"
    if "\<forall>i. session_user_id s = Some i \<longrightarrow> getUserPendingOrders env i = Rejected"
    using that by (simp add: pendingOrders_of_def catch_def split: option.split)
  show ?thesis
    unfolding Home_Resolved [OF assms(1) e]
    using search ratings pending
    by (simp add: catch_def categories_of_Nil categories_of_Nil2 sorted_config_Nil)
qed

lemma env_shop_auth:
  "auth env_shop = Resolved (Some \<lparr>user = Some \<lparr>user_id = Some (js ''u1'')\<rparr>\<rparr>)"
  by (simp add: env_shop_def)

lemma env_shop_returns:
  obtains vm where "snd (Home env_shop sp) = Resolved vm"
proof -
  let ?ps = "products_of (productsResult env_shop (resolved_of sp))"
  have "ratingsMap env_shop ?ps = RatingsMap [js ''a'' \<mapsto> \<lparr>average = 4, count = 2\<rparr>]"
    by (simp add: ratingsMap_def env_shop_def catch_def)
  then have "productsWithRatings (ratingsMap env_shop ?ps) ?ps
      = Some (map (enrich [js ''a'' \<mapsto> \<lparr>average = 4, count = 2\<rparr>]) ?ps)"
    by (simp only: productsWithRatings_Map)
  from Home_Resolved [OF env_shop_auth this] that show ?thesis by blast
qed

lemma env_shop_memoised_products:
  "products_of (productsResult env_shop_memoised r) = [product_b, product_a]"
  by (simp add: env_shop_memoised_def env_shop_def productsResult_def catch_def products_of_def)

text \<open>
  C1 does not hold of the code: \<open>Home\<close> can raise while no read fails. In
  \<open>env_shop_memoised\<close> every read resolves, the search with two products and the ratings
  read with the value the cache serves for a memoised \<open>Map\<close>, a plain object. Line 92
  calls \<open>ratingsMap.get\<close> on it for the first product, outside the \<open>try\<close> of lines 82 to
  90, and the handler rejects.
\<close>

theorem C1_memoised_ratings_raise:
  "snd (Home env_shop_memoised None) = Rejected
   \<and> auth env_shop_memoised = Resolved (Some \<lparr>user = Some \<lparr>user_id = Some (js ''u1'')\<rparr>\<rparr>)
   \<and> searchActiveProducts env_shop_memoised (Home_args (resolved_of None))
        = Resolved \<lparr>items = Some [product_b, product_a], total = Some 2,
                     res_page = Num 1, res_pageSize = 24\<rparr>
   \<and> getCachedAnnouncement env_shop_memoised = Resolved (Some ())
   \<and> getCachedVisitorCount env_shop_memoised = Resolved 42
   \<and> getCachedCategories env_shop_memoised
        = Resolved [\<lparr>name = js ''B'', sortOrder = Some 2\<rparr>, \<lparr>name = js ''A'', sortOrder = Some 1\<rparr>]
   \<and> getCachedProductCategories env_shop_memoised = Resolved [js ''A'', js ''C'']
   \<and> getProductRatings env_shop_memoised (sortedIds [product_b, product_a]) = Resolved PlainObject
   \<and> getUserPendingOrders env_shop_memoised (js ''u1'') = Resolved [()]"
proof -
  have a: "auth env_shop_memoised = Resolved (Some \<lparr>user = Some \<lparr>user_id = Some (js ''u1'')\<rparr>\<rparr>)"
    by (simp add: env_shop_memoised_def env_shop_def)
  have "ratingsMap env_shop_memoised [product_b, product_a] = PlainObject"
    by (simp add: ratingsMap_def env_shop_memoised_def catch_def)
  then have "productsWithRatings
      (ratingsMap env_shop_memoised (products_of (productsResult env_shop_memoised (resolved_of None))))
      (products_of (productsResult env_shop_memoised (resolved_of None))) = None"
    by (simp add: env_shop_memoised_products productsWithRatings_None_iff)
  from Home_throws [OF a this] show ?thesis
    by (simp add: env_shop_memoised_def env_shop_def)
qed

subsection \<open>The category configuration\<close>

lemma sorted_config_sorted: "sorted (map sortKey (sorted_config cfg))"
  by (simp add: sorted_config_def)

lemma sorted_config_mset: "mset (sorted_config cfg) = mset cfg"
  by (simp add: sorted_config_def)

lemma sorted_config_stable:
  "filter (\<lambda>c. sortKey c = k) (sorted_config cfg) = filter (\<lambda>c. sortKey c = k) cfg"
  by (simp add: sorted_config_def sort_key_stable)

lemma Home_categoryConfig:
  assumes "snd (Home env sp) = Resolved vm"
  shows "categoryConfig vm = sorted_config (catch (getCachedCategories env) [])"
    and "categories vm =
           categories_of (catch (getCachedCategories env) []) (catch (getCachedProductCategories env) [])"
  using assms by (rule Home_ResolvedD, simp)+

lemma sorted_config_example:
  "sorted_config [\<lparr>name = js ''B'', sortOrder = Some 2\<rparr>, \<lparr>name = js ''A'', sortOrder = Some 1\<rparr>]
     = [\<lparr>name = js ''A'', sortOrder = Some 1\<rparr>, \<lparr>name = js ''B'', sortOrder = Some 2\<rparr>]"
  by (simp add: sorted_config_def sortKey_def)

text \<open>
  C10: the category configuration of a returned view model is the configuration that the
  read delivered (empty when it rejected), sorted by ascending \<open>sortOrder\<close> with a missing
  \<open>sortOrder\<close> counted as 0: the same rows, rows of equal key in their delivered order,
  and the names at the head of the merged category list are its names in that order.
\<close>

theorem C10_categoryConfig_sorted:
  assumes "snd (Home env sp) = Resolved vm"
  shows "sorted (map (\<lambda>c. case sortOrder c of None \<Rightarrow> 0 | Some n \<Rightarrow> n) (categoryConfig vm))
       \<and> mset (categoryConfig vm) = mset (catch (getCachedCategories env) [])
       \<and> (\<forall>k. filter (\<lambda>c. sortKey c = k) (categoryConfig vm)
                = filter (\<lambda>c. sortKey c = k) (catch (getCachedCategories env) []))
       \<and> take (length (categoryConfig vm)) (categories vm) = map name (categoryConfig vm)"
proof -
  have k: "(\<lambda>c. case sortOrder c of None \<Rightarrow> 0 | Some n \<Rightarrow> n) = sortKey"
    by (rule ext) (simp add: sortKey_def)
  show ?thesis
    unfolding k Home_categoryConfig [OF assms]
    by (simp add: sorted_config_sorted sorted_config_mset sorted_config_stable
        categories_of_def categoryNames_def)
qed

theorem C10_categoryConfig_sorted_witness:
  "\<exists>vm. snd (Home env_shop None) = Resolved vm
     \<and> categoryConfig vm
         = [\<lparr>name = js ''A'', sortOrder = Some 1\<rparr>, \<lparr>name = js ''B'', sortOrder = Some 2\<rparr>]
     \<and> sorted (map (\<lambda>c. case sortOrder c of None \<Rightarrow> 0 | Some n \<Rightarrow> n) (categoryConfig vm))"
proof -
  obtain vm where vm: "snd (Home env_shop None) = Resolved vm" by (rule env_shop_returns)
  have "categoryConfig vm
      = [\<lparr>name = js ''A'', sortOrder = Some 1\<rparr>, \<lparr>name = js ''B'', sortOrder = Some 2\<rparr>]"
    using Home_categoryConfig(1) [OF vm]
    by (simp add: env_shop_def catch_def sorted_config_example)
  with C10_categoryConfig_sorted [OF vm] vm show ?thesis by blast
qed

subsection \<open>The merged category list\<close>

lemma extraCategories_sorted: "sorted (extraCategories cfg pcs)"
  by (simp add: extraCategories_def)

lemma set_categoryNames: "set (categoryNames cfg) = name ` set cfg"
  by (simp add: categoryNames_def sorted_config_def)

lemma extraCategories_mset:
  "mset (extraCategories cfg pcs) = filter_mset (\<lambda>c. c \<notin> name ` set cfg) (mset pcs)"
  by (simp add: extraCategories_def set_categoryNames)

lemma categories_of_set: "set (categories_of cfg pcs) = name ` set cfg \<union> set pcs"
  by (auto simp: categories_of_def extraCategories_def set_categoryNames)

lemma distinct_categoryNames: "distinct (categoryNames cfg) \<longleftrightarrow> distinct (map name cfg)"
proof -
  have "mset (categoryNames cfg) = mset (map name cfg)"
    by (simp add: categoryNames_def sorted_config_mset)
  then show ?thesis by (rule mset_eq_imp_distinct_iff)
qed

lemma categories_of_distinct:
  "distinct (categories_of cfg pcs) \<longleftrightarrow> distinct (map name cfg) \<and> distinct [c \<leftarrow> pcs. c \<notin> name ` set cfg]"
  by (auto simp: categories_of_def distinct_categoryNames extraCategories_def set_categoryNames)

lemma js_A_B_C:
  "js ''A'' < js ''C''" "js ''A'' \<noteq> js ''B''" "js ''C'' \<noteq> js ''A''" "js ''C'' \<noteq> js ''B''"
  by (simp_all add: js_def)

lemma categories_of_example:
  "categories_of [\<lparr>name = js ''B'', sortOrder = Some 2\<rparr>, \<lparr>name = js ''A'', sortOrder = Some 1\<rparr>]
     [js ''A'', js ''C''] = [js ''A'', js ''B'', js ''C'']"
  by (simp add: categories_of_def categoryNames_def extraCategories_def sorted_config_example js_A_B_C)

text \<open>
  C2, as stated, fails: the merge removes from the product categories the names of the
  configuration and nothing else. A product-categories read that delivers \<open>C\<close> twice, with
  an empty configuration, gives the merged list \<open>C, C\<close>.
\<close>

theorem C2_categories_counterexample:
  "snd (Home env_dup_categories None) =
     Resolved
       \<lparr>products = [], announcement = None, visitorCount = 0,
        categories = [js ''C'', js ''C''],
        categoryConfig = [], pendingOrders = [],
        filters = \<lparr>f_q = [], f_category = None, f_sort = js ''default''\<rparr>,
        pagination = \<lparr>p_page = Num 1, p_pageSize = 24, p_total = 0\<rparr>\<rparr>"
proof -
  have a: "auth env_dup_categories = Resolved None"
    by (simp add: env_dup_categories_def env_down_def)
  have page: "Home_page Map.empty = Num 1"
    by (simp add: Home_page_cases get_param_def)
  have result: "productsResult env_dup_categories Map.empty =
      \<lparr>items = Some [], total = Some 0, res_page = Num 1, res_pageSize = 24\<rparr>"
    by (simp add: productsResult_def env_dup_categories_def env_down_def catch_def page PAGE_SIZE_def)
  have cats: "categories_of [] [js ''C'', js ''C''] = [js ''C'', js ''C'']"
    by (simp add: categories_of_Nil)
  have reads: "catch (getCachedCategories env_dup_categories) [] = []"
    "catch (getCachedProductCategories env_dup_categories) [] = [js ''C'', js ''C'']"
    "catch (getCachedAnnouncement env_dup_categories) None = None"
    "catch (getCachedVisitorCount env_dup_categories) 0 = 0"
    by (simp_all add: env_dup_categories_def env_down_def catch_def)
  have "productsWithRatings
      (ratingsMap env_dup_categories (products_of (productsResult env_dup_categories (resolved_of None))))
      (products_of (productsResult env_dup_categories (resolved_of None))) = Some []"
    by (simp add: resolved_of_def result products_of_def productsWithRatings_Nil)
  note H = Home_Resolved [OF a this]
  show ?thesis
    unfolding H reads
    by (simp add: resolved_of_def page result total_of_def
        sorted_config_Nil pendingOrders_of_def session_user_id_def
        PAGE_SIZE_def Home_q_def Home_category_def categoryParam_def Home_sort_def
        get_param_def string_or_def trim_Nil trim_default cats)
qed

text \<open>
  C2, amended: the merged categories of a returned view model are the configuration names
  in ascending \<open>sortOrder\<close>, followed by the product categories that are not among the
  configuration names, sorted lexicographically and with the multiplicity they were
  delivered with. The two parts share no name; the list has no duplicates exactly when the
  configuration names have none and the appended product categories have none. For the
  configuration \<open>B\<close> (2), \<open>A\<close> (1) and the product categories \<open>A\<close>, \<open>C\<close> the list is
  \<open>A, B, C\<close>.
\<close>

theorem C2_categories:
  assumes "snd (Home env sp) = Resolved vm"
    and "cfg = catch (getCachedCategories env) []"
    and "pcs = catch (getCachedProductCategories env) []"
  shows "categories vm = map name (sorted_config cfg) @ extraCategories cfg pcs
       \<and> sorted (map sortKey (sorted_config cfg)) \<and> mset (sorted_config cfg) = mset cfg
       \<and> sorted (extraCategories cfg pcs)
       \<and> mset (extraCategories cfg pcs) = filter_mset (\<lambda>c. c \<notin> name ` set cfg) (mset pcs)
       \<and> set (categories vm) = name ` set cfg \<union> set pcs
       \<and> (distinct (categories vm)
            \<longleftrightarrow> distinct (map name cfg) \<and> distinct [c \<leftarrow> pcs. c \<notin> name ` set cfg])
       \<and> categories_of
            [\<lparr>name = js ''B'', sortOrder = Some 2\<rparr>, \<lparr>name = js ''A'', sortOrder = Some 1\<rparr>]
            [js ''A'', js ''C''] = [js ''A'', js ''B'', js ''C'']"
proof -
  have c: "categories vm = categories_of cfg pcs"
    using Home_categoryConfig(2) [OF assms(1)] assms(2,3) by simp
  show ?thesis
    unfolding c
    by (simp add: sorted_config_sorted sorted_config_mset extraCategories_sorted
        extraCategories_mset categories_of_set categories_of_distinct categories_of_example)
      (simp add: categories_of_def categoryNames_def)
qed

theorem C2_categories_witness:
  "\<exists>vm. snd (Home env_shop None) = Resolved vm
     \<and> categories vm = [js ''A'', js ''B'', js ''C''] \<and> distinct (categories vm)"
proof -
  let ?cfg = "[\<lparr>name = js ''B'', sortOrder = Some 2\<rparr>, \<lparr>name = js ''A'', sortOrder = Some 1\<rparr>]"
  obtain vm where vm: "snd (Home env_shop None) = Resolved vm" by (rule env_shop_returns)
  have cfg: "?cfg = catch (getCachedCategories env_shop) []"
    and pcs: "[js ''A'', js ''C''] = catch (getCachedProductCategories env_shop) []"
    by (simp_all add: env_shop_def catch_def)
  from C2_categories [OF vm cfg pcs]
  have "categories vm = map name (sorted_config ?cfg) @ extraCategories ?cfg [js ''A'', js ''C'']"
    and d: "distinct (categories vm)
            \<longleftrightarrow> distinct (map name ?cfg) \<and> distinct [c \<leftarrow> [js ''A'', js ''C'']. c \<notin> name ` set ?cfg]"
    by blast+
  then have "categories vm = [js ''A'', js ''B'', js ''C'']"
    using categories_of_example by (simp add: categories_of_def categoryNames_def)
  moreover from d have "distinct (categories vm)"
    by (simp add: js_A_B_C js_A_B_C(2) [symmetric])
  ultimately show ?thesis using vm by blast
qed

subsection \<open>The ids that key the ratings read\<close>

lemma sortedIds_sorted: "sorted (sortedIds ps)"
  by (simp add: sortedIds_def)

lemma sortedIds_mset:
  "mset (sortedIds ps) = filter_mset (\<lambda>i. i \<noteq> []) (image_mset product_id (mset ps))"
  by (simp add: sortedIds_def productIds_def)

lemma sortedIds_set: "set (sortedIds ps) = {i \<in> product_id ` set ps. i \<noteq> []}"
  by (auto simp: sortedIds_def productIds_def)

lemma sortedIds_distinct: "distinct (map product_id ps) \<Longrightarrow> distinct (sortedIds ps)"
  by (simp add: sortedIds_def productIds_def)

lemma sortedIds_permutation:
  assumes "mset ps' = mset ps"
  shows "sortedIds ps' = sortedIds ps"
proof -
  have "mset (sortedIds ps) = mset (productIds ps')"
    using assms by (simp add: sortedIds_def productIds_def)
  then have "sort (productIds ps') = sortedIds ps"
    using sortedIds_sorted by (rule properties_for_sort)
  then show ?thesis by (simp add: sortedIds_def)
qed

lemma sortedIds_twice: "sortedIds [product_a, product_a] = [js ''a'', js ''a'']"
  by (simp add: sortedIds_def productIds_def product_a_def js_def)

text \<open>
  C9, as stated, fails: the ids are filtered and sorted, and no step removes a repeated
  id. A search result that holds one product twice keys the ratings read with its id
  twice.
\<close>

theorem C9_sortedIds_counterexample:
  "fst (Home env_dup_products None) =
     [CallAuth,
      CallSearchActiveProducts
        \<lparr>arg_q = [], arg_category = [], arg_sort = js ''default'', arg_page = Num 1,
         arg_pageSize = 24\<rparr>,
      CallAnnouncement, CallVisitorCount, CallCategories, CallProductCategories,
      CallProductRatings [js ''a'', js ''a'']]"
proof -
  have a: "auth env_dup_products = Resolved None"
    by (simp add: env_dup_products_def env_down_def)
  have page: "Home_page Map.empty = Num 1"
    by (simp add: Home_page_cases get_param_def)
  have args: "Home_args Map.empty =
      \<lparr>arg_q = [], arg_category = [], arg_sort = js ''default'', arg_page = Num 1, arg_pageSize = 24\<rparr>"
    by (simp add: Home_args_def page Home_q_def Home_category_def categoryParam_def Home_sort_def
        get_param_def string_or_def trim_Nil trim_default PAGE_SIZE_def)
  have ps: "products_of (productsResult env_dup_products Map.empty) = [product_a, product_a]"
    by (simp add: productsResult_def env_dup_products_def catch_def products_of_def)
  have rv: "ratingsMap env_dup_products [product_a, product_a] = RatingsMap Map.empty"
    by (simp add: ratingsMap_def env_dup_products_def env_down_def catch_def)
  show ?thesis
    unfolding Home_calls [OF a]
    by (simp add: resolved_of_def first_calls_def args ps sortedIds_twice session_user_id_def
        rv productsWithRatings_Map)
qed

text \<open>
  C9, amended: when \<open>Home\<close> gets as far as the ratings read, it issues exactly one ratings
  read, and the ids passed to it are the truthy (non-empty) ids of the result's items,
  sorted lexicographically, each as often as it occurs among the items; the list has no
  duplicates when the items have distinct ids. Two results that hold the same products in
  different orders give the same list.
\<close>

theorem C9_sortedIds:
  assumes "auth env = Resolved s"
    and "ps = products_of (productsResult env (resolved_of sp))"
  shows "(\<forall>ids. CallProductRatings ids \<in> set (fst (Home env sp)) \<longleftrightarrow> ids = sortedIds ps)
       \<and> sorted (sortedIds ps)
       \<and> mset (sortedIds ps) = filter_mset (\<lambda>i. i \<noteq> []) (image_mset product_id (mset ps))
       \<and> set (sortedIds ps) = {i \<in> product_id ` set ps. i \<noteq> []}
       \<and> (distinct (map product_id ps) \<longrightarrow> distinct (sortedIds ps))
       \<and> (\<forall>ps'. mset ps' = mset ps \<longrightarrow> sortedIds ps' = sortedIds ps)"
proof -
  have "\<forall>ids. CallProductRatings ids \<in> set (fst (Home env sp)) \<longleftrightarrow> ids = sortedIds ps"
    unfolding Home_calls [OF assms(1)] assms(2)
    by (auto simp: first_calls_def split: option.splits)
  moreover have "\<forall>ps'. mset ps' = mset ps \<longrightarrow> sortedIds ps' = sortedIds ps"
    by (intro allI impI) (rule sortedIds_permutation)
  moreover have "distinct (map product_id ps) \<longrightarrow> distinct (sortedIds ps)"
    by (intro impI) (rule sortedIds_distinct)
  moreover note sortedIds_sorted [of ps] sortedIds_mset [of ps] sortedIds_set [of ps]
  ultimately show ?thesis by (intro conjI)
qed

theorem C9_sortedIds_witness:
  "CallProductRatings [js ''a'', js ''b''] \<in> set (fst (Home env_shop None))
   \<and> sortedIds [product_b, product_a] = [js ''a'', js ''b'']
   \<and> sortedIds [product_a, product_b] = sortedIds [product_b, product_a]
   \<and> distinct (sortedIds [product_b, product_a])"
proof -
  have ps: "[product_b, product_a] = products_of (productsResult env_shop (resolved_of None))"
    by (simp add: productsResult_def env_shop_def catch_def products_of_def)
  have ids: "sortedIds [product_b, product_a] = [js ''a'', js ''b'']"
    by (simp add: sortedIds_def productIds_def product_a_def product_b_def js_def)
  have d: "distinct (map product_id [product_b, product_a])"
    by (simp add: product_a_def product_b_def js_def)
  have m: "mset [product_a, product_b] = mset [product_b, product_a]"
    by (simp add: add_mset_commute)
  note C = C9_sortedIds [OF env_shop_auth ps]
  note call = C [THEN conjunct1, THEN spec, of "sortedIds [product_b, product_a]"]
  note dist = C [THEN conjunct2, THEN conjunct2, THEN conjunct2, THEN conjunct2, THEN conjunct1]
  note perm = C [THEN conjunct2, THEN conjunct2, THEN conjunct2, THEN conjunct2, THEN conjunct2,
      THEN spec, of "[product_a, product_b]"]
  from call have "CallProductRatings [js ''a'', js ''b''] \<in> set (fst (Home env_shop None))"
    unfolding ids by (rule iffD2) (rule refl)
  moreover from dist d have "distinct (sortedIds [product_b, product_a])" by (rule mp)
  moreover from perm m have "sortedIds [product_a, product_b] = sortedIds [product_b, product_a]"
    by (rule mp)
  ultimately show ?thesis using ids by (intro conjI)
qed

subsection \<open>stripMarkdown: the example of the specification\<close>

text \<open>The five stages on \<open>**Hi** [link](url) ![img](url2)\<close>, one after the other.\<close>

lemma example_images:
  "replace_images (js ''**Hi** [link](url) ![img](url2)'') = js ''**Hi** [link](url) ''"
  by (simp add: js_def match_image_def close_bracket_def isLineTerminator_def)

lemma example_links:
  "replace_links (js ''**Hi** [link](url) '') = js ''**Hi** link ''"
  by (simp add: js_def match_link_def close_bracket_def isLineTerminator_def)

lemma example_markup:
  "replace_markup (js ''**Hi** link '') = js ''  Hi   link ''"
  by (simp add: js_def replace_markup_def isMarkup_def)

lemma example_collapse:
  "collapse_whitespace (js ''  Hi   link '') = js '' Hi link ''"
  by (simp add: js_def isWhiteSpace_def isLineTerminator_def)

lemma example_trim:
  "trim (js '' Hi link '') = js ''Hi link''"
  by (simp add: js_def trim_def isWhiteSpace_def isLineTerminator_def)

lemma stripMarkdown_example:
  "stripMarkdown (js ''**Hi** [link](url) ![img](url2)'') = js ''Hi link''"
  by (simp only: stripMarkdown_def example_images example_links example_markup example_collapse
      example_trim)

subsection \<open>stripMarkdown: what the result looks like\<close>

lemma replace_markup_clean: "c \<in> set (replace_markup s) \<Longrightarrow> \<not> isMarkup c"
  by (auto simp: replace_markup_def isMarkup_def split: if_splits)

lemma isWhiteSpace_space: "isWhiteSpace 0x20"
  by (simp add: isWhiteSpace_def)

lemma not_isMarkup_space: "\<not> isMarkup 0x20"
  by (simp add: isMarkup_def)

lemma collapse_whitespace_set: "set (collapse_whitespace s) \<subseteq> insert 0x20 (set s)"
proof (induction s rule: collapse_whitespace.induct)
  case 1
  show ?case by simp
next
  case (2 c cs)
  show ?case
  proof (cases "isWhiteSpace c")
    case True
    with 2 have "set (collapse_whitespace (dropWhile isWhiteSpace cs))
        \<subseteq> insert 0x20 (set (dropWhile isWhiteSpace cs))" by simp
    moreover have "set (dropWhile isWhiteSpace cs) \<subseteq> set cs"
      by (auto dest: set_dropWhileD)
    ultimately show ?thesis using True by auto
  next
    case False
    with 2 show ?thesis by auto
  qed
qed

lemma collapse_whitespace_spaces:
  "c \<in> set (collapse_whitespace s) \<Longrightarrow> isWhiteSpace c \<Longrightarrow> c = 0x20"
proof (induction s rule: collapse_whitespace.induct)
  case 1
  then show ?case by simp
next
  case (2 d ds)
  then show ?case by (cases "isWhiteSpace d") auto
qed

lemma collapse_whitespace_hd:
  "s \<noteq> [] \<Longrightarrow> \<not> isWhiteSpace (hd s) \<Longrightarrow>
     collapse_whitespace s \<noteq> [] \<and> hd (collapse_whitespace s) = hd s"
  by (cases s) simp_all

lemma collapse_whitespace_adjacent:
  "successively (\<lambda>a b. \<not> (isWhiteSpace a \<and> isWhiteSpace b)) (collapse_whitespace s)"
proof (induction s rule: collapse_whitespace.induct)
  case 1
  show ?case by simp
next
  case (2 c cs)
  show ?case
  proof (cases "isWhiteSpace c")
    case True
    let ?r = "dropWhile isWhiteSpace cs"
    from 2 True have IH: "successively (\<lambda>a b. \<not> (isWhiteSpace a \<and> isWhiteSpace b))
        (collapse_whitespace ?r)" by simp
    have "\<not> isWhiteSpace (hd (collapse_whitespace ?r))" if "collapse_whitespace ?r \<noteq> []"
    proof -
      from that have ne: "?r \<noteq> []" by (cases ?r) simp_all
      then have "\<not> isWhiteSpace (hd ?r)" by (simp add: hd_dropWhile)
      with ne collapse_whitespace_hd [of ?r] show ?thesis by simp
    qed
    with IH True show ?thesis by (auto simp: successively_Cons)
  next
    case False
    with 2 show ?thesis by (auto simp: successively_Cons)
  qed
qed

lemma last_dropWhile: "dropWhile P xs \<noteq> [] \<Longrightarrow> last (dropWhile P xs) = last xs"
  by (induction xs) (auto split: if_splits)

lemma successively_dropWhile: "successively P xs \<Longrightarrow> successively P (dropWhile Q xs)"
proof -
  assume "successively P xs"
  then have "successively P (takeWhile Q xs @ dropWhile Q xs)" by simp
  then show ?thesis unfolding successively_append_iff by blast
qed

lemma trim_set: "set (trim s) \<subseteq> set s"
  by (auto simp: trim_def dest!: set_dropWhileD)

lemma trim_ends:
  assumes "trim s \<noteq> []"
  shows "\<not> isWhiteSpace (hd (trim s))" and "\<not> isWhiteSpace (last (trim s))"
proof -
  let ?u = "dropWhile isWhiteSpace s"
  let ?v = "dropWhile isWhiteSpace (rev ?u)"
  from assms have v: "?v \<noteq> []" by (simp add: trim_def)
  then have u: "?u \<noteq> []" by (cases ?u) simp_all
  have "hd (trim s) = last ?v" using v by (simp add: trim_def hd_rev)
  also have "\<dots> = last (rev ?u)" using v by (rule last_dropWhile)
  also have "\<dots> = hd ?u" using u by (simp add: last_rev)
  finally show "\<not> isWhiteSpace (hd (trim s))" using u by (simp add: hd_dropWhile)
  have "last (trim s) = hd ?v" using v by (simp add: trim_def last_rev)
  then show "\<not> isWhiteSpace (last (trim s))" using v by (simp add: hd_dropWhile)
qed

lemma trim_adjacent:
  assumes "successively (\<lambda>a b. \<not> (isWhiteSpace a \<and> isWhiteSpace b)) s"
  shows "successively (\<lambda>a b. \<not> (isWhiteSpace a \<and> isWhiteSpace b)) (trim s)"
proof -
  have "successively (\<lambda>a b. \<not> (isWhiteSpace b \<and> isWhiteSpace a)) (rev (dropWhile isWhiteSpace s))"
    using successively_dropWhile [OF assms] by simp
  then have "successively (\<lambda>a b. \<not> (isWhiteSpace b \<and> isWhiteSpace a))
      (dropWhile isWhiteSpace (rev (dropWhile isWhiteSpace s)))"
    by (rule successively_dropWhile)
  then show ?thesis by (simp add: trim_def)
qed

lemma stripMarkdown_chars:
  assumes "c \<in> set (stripMarkdown s)"
  shows "\<not> isMarkup c" and "isWhiteSpace c \<Longrightarrow> c = 0x20"
proof -
  let ?m = "replace_markup (replace_links (replace_images s))"
  from assms have c: "c \<in> set (collapse_whitespace ?m)"
    using trim_set by (auto simp: stripMarkdown_def)
  then have "c = 0x20 \<or> c \<in> set ?m" using collapse_whitespace_set by auto
  then show "\<not> isMarkup c" using replace_markup_clean not_isMarkup_space by auto
  show "c = 0x20" if "isWhiteSpace c" using c that by (rule collapse_whitespace_spaces)
qed

subsection \<open>stripMarkdown: images and links\<close>

lemma lazy_paren_url:
  "\<forall>c \<in> set url. c \<noteq> 0x29 \<and> \<not> isLineTerminator c \<Longrightarrow>
     lazy_paren (url @ 0x29 # post) = Some post"
  by (induction url) simp_all

lemma close_bracket_other: "c \<noteq> 0x5D \<Longrightarrow> close_bracket (c # cs) = None"
  by (simp add: close_bracket_def split: list.split)

lemma lazy_bracket_text:
  assumes "\<forall>c \<in> set lbl. c \<noteq> 0x5D \<and> \<not> isLineTerminator c"
    and "\<forall>c \<in> set url. c \<noteq> 0x29 \<and> \<not> isLineTerminator c"
  shows "lazy_bracket (lbl @ 0x5D # 0x28 # url @ 0x29 # post) = Some (lbl, post)"
  using assms(1)
proof (induction lbl)
  case Nil
  show ?case by (simp add: close_bracket_def lazy_paren_url [OF assms(2)])
next
  case (Cons c lbl)
  then show ?case by (simp add: close_bracket_other)
qed

lemma match_image_other: "c \<noteq> 0x21 \<Longrightarrow> match_image (c # cs) = None"
  by (simp add: match_image_def split: list.split)

lemma match_link_other: "c \<noteq> 0x5B \<Longrightarrow> match_link (c # cs) = None"
  by (simp add: match_link_def)

lemma replace_images_prefix: "0x21 \<notin> set pre \<Longrightarrow> replace_images (pre @ s) = pre @ replace_images s"
  by (induction pre) (simp_all add: match_image_other)

lemma replace_links_prefix: "0x5B \<notin> set pre \<Longrightarrow> replace_links (pre @ s) = pre @ replace_links s"
  by (induction pre) (simp_all add: match_link_other)

lemma replace_images_image:
  assumes "\<forall>c \<in> set alt. c \<noteq> 0x5D \<and> \<not> isLineTerminator c"
    and "\<forall>c \<in> set url. c \<noteq> 0x29 \<and> \<not> isLineTerminator c"
  shows "replace_images (0x21 # 0x5B # alt @ 0x5D # 0x28 # url @ 0x29 # post) = replace_images post"
  by (simp add: match_image_def lazy_bracket_text [OF assms])

lemma replace_links_link:
  assumes "\<forall>c \<in> set lbl. c \<noteq> 0x5D \<and> \<not> isLineTerminator c"
    and "\<forall>c \<in> set url. c \<noteq> 0x29 \<and> \<not> isLineTerminator c"
  shows "replace_links (0x5B # lbl @ 0x5D # 0x28 # url @ 0x29 # post) = lbl @ replace_links post"
  by (simp add: match_link_def lazy_bracket_text [OF assms])

lemma js_tokens:
  "js ''!['' = [0x21, 0x5B]" "js '']('' = [0x5D, 0x28]" "js '')'' = [0x29]" "js ''['' = [0x5B]"
  by (simp_all add: js_def)

lemma stripMarkdown_image:
  assumes "0x21 \<notin> set pre"
    and "\<forall>c \<in> set alt. c \<noteq> 0x5D \<and> \<not> isLineTerminator c"
    and "\<forall>c \<in> set url. c \<noteq> 0x29 \<and> \<not> isLineTerminator c"
  shows "stripMarkdown (pre @ js ''!['' @ alt @ js '']('' @ url @ js '')'' @ post)
           = stripMarkdown (pre @ post)"
  by (simp add: stripMarkdown_def js_tokens replace_images_prefix [OF assms(1)]
      replace_images_image [OF assms(2,3)] del: replace_images.simps)

lemma stripMarkdown_link:
  assumes "0x21 \<notin> set pre" "0x5B \<notin> set pre"
    and "\<forall>c \<in> set lbl. c \<noteq> 0x21 \<and> c \<noteq> 0x5B \<and> c \<noteq> 0x5D \<and> \<not> isLineTerminator c"
    and "\<forall>c \<in> set url. c \<noteq> 0x21 \<and> c \<noteq> 0x29 \<and> \<not> isLineTerminator c"
  shows "stripMarkdown (pre @ js ''['' @ lbl @ js '']('' @ url @ js '')'' @ post)
           = stripMarkdown (pre @ lbl @ post)"
proof -
  let ?P = "replace_images post"
  have t: "\<forall>c \<in> set lbl. c \<noteq> 0x5D \<and> \<not> isLineTerminator c"
    and u: "\<forall>c \<in> set url. c \<noteq> 0x29 \<and> \<not> isLineTerminator c"
    using assms(3,4) by blast+
  have "0x21 \<notin> set (pre @ 0x5B # lbl @ 0x5D # 0x28 # url @ [0x29])"
    using assms(1,3,4) by auto
  from replace_images_prefix [OF this, of post]
  have "replace_images (pre @ 0x5B # lbl @ 0x5D # 0x28 # url @ 0x29 # post)
      = pre @ 0x5B # lbl @ 0x5D # 0x28 # url @ 0x29 # ?P" by simp
  then have l: "replace_links (replace_images (pre @ 0x5B # lbl @ 0x5D # 0x28 # url @ 0x29 # post))
      = pre @ lbl @ replace_links ?P"
    by (simp add: replace_links_prefix [OF assms(2)] replace_links_link [OF t u]
        del: replace_links.simps)
  have "0x21 \<notin> set (pre @ lbl)" "0x5B \<notin> set (pre @ lbl)"
    using assms(1,2,3) by auto
  from replace_images_prefix [OF this(1), of post] replace_links_prefix [OF this(2), of ?P]
  have r: "replace_links (replace_images (pre @ lbl @ post)) = pre @ lbl @ replace_links ?P"
    by simp
  show ?thesis by (simp add: stripMarkdown_def js_tokens l r)
qed

subsection \<open>stripMarkdown: the stages, exactly\<close>

lemma lazy_paren_iff:
  "lazy_paren u = Some rest \<longleftrightarrow>
     (\<exists>url. u = url @ 0x29 # rest \<and> (\<forall>x \<in> set url. x \<noteq> 0x29 \<and> \<not> isLineTerminator x))"
proof (induction u)
  case Nil
  show ?case by simp
next
  case (Cons c cs)
  show ?case
  proof (cases "c = 0x29")
    case True
    have "(\<exists>url. c # cs = url @ 0x29 # rest \<and> (\<forall>x \<in> set url. x \<noteq> 0x29 \<and> \<not> isLineTerminator x))
        \<longleftrightarrow> cs = rest"
    proof
      assume "\<exists>url. c # cs = url @ 0x29 # rest \<and> (\<forall>x \<in> set url. x \<noteq> 0x29 \<and> \<not> isLineTerminator x)"
      then obtain url where u: "c # cs = url @ 0x29 # rest"
        and n: "\<forall>x \<in> set url. x \<noteq> 0x29 \<and> \<not> isLineTerminator x" by blast
      have "url = []"
      proof (cases url)
        case (Cons y ys)
        with u have "y = c" by simp
        with n Cons True show ?thesis by simp
      qed simp
      with u show "cs = rest" by simp
    next
      assume "cs = rest"
      with True have "c # cs = [] @ 0x29 # rest" by simp
      then show "\<exists>url. c # cs = url @ 0x29 # rest \<and> (\<forall>x \<in> set url. x \<noteq> 0x29 \<and> \<not> isLineTerminator x)"
        by (intro exI [of _ "[]"]) simp
    qed
    with True show ?thesis by auto
  next
    case False
    have split: "(\<exists>url. c # cs = url @ 0x29 # rest \<and> (\<forall>x \<in> set url. x \<noteq> 0x29 \<and> \<not> isLineTerminator x))
        \<longleftrightarrow> \<not> isLineTerminator c
            \<and> (\<exists>url. cs = url @ 0x29 # rest \<and> (\<forall>x \<in> set url. x \<noteq> 0x29 \<and> \<not> isLineTerminator x))"
      (is "?L \<longleftrightarrow> ?R")
    proof
      assume ?L
      then obtain url where u: "c # cs = url @ 0x29 # rest"
        and n: "\<forall>x \<in> set url. x \<noteq> 0x29 \<and> \<not> isLineTerminator x" by blast
      from u False obtain ys where ys: "url = c # ys" by (cases url) simp_all
      with u n show ?R by auto
    next
      assume ?R
      then obtain url where "cs = url @ 0x29 # rest"
        "\<forall>x \<in> set url. x \<noteq> 0x29 \<and> \<not> isLineTerminator x" "\<not> isLineTerminator c" by blast
      with False have "c # cs = (c # url) @ 0x29 # rest
          \<and> (\<forall>x \<in> set (c # url). x \<noteq> 0x29 \<and> \<not> isLineTerminator x)" by simp
      then show ?L by blast
    qed
    show ?thesis unfolding split using False Cons.IH by simp
  qed
qed

lemma close_bracket_iff:
  "close_bracket v = Some rest \<longleftrightarrow>
     (\<exists>url. v = js '']('' @ url @ js '')'' @ rest
        \<and> (\<forall>x \<in> set url. x \<noteq> 0x29 \<and> \<not> isLineTerminator x))"
proof (cases v)
  case Nil
  then show ?thesis by (simp add: close_bracket_def js_tokens)
next
  case (Cons c cs)
  show ?thesis
  proof (cases cs)
    case Nil
    with Cons show ?thesis by (simp add: close_bracket_def js_tokens)
  next
    case (Cons d ds)
    with \<open>v = c # cs\<close> show ?thesis
      by (auto simp: close_bracket_def js_tokens lazy_paren_iff)
  qed
qed

lemma lazy_bracket_iff:
  "lazy_bracket u = Some (cap, rest) \<longleftrightarrow>
     (\<exists>v. u = cap @ v \<and> close_bracket v = Some rest
        \<and> (\<forall>x \<in> set cap. \<not> isLineTerminator x)
        \<and> (\<forall>k < length cap. close_bracket (drop k u) = None))"
proof (induction u arbitrary: cap)
  case Nil
  show ?case by (simp add: close_bracket_def)
next
  case (Cons c cs)
  let ?R = "\<lambda>u cap. \<exists>v. u = cap @ v \<and> close_bracket v = Some rest
        \<and> (\<forall>x \<in> set cap. \<not> isLineTerminator x)
        \<and> (\<forall>k < length cap. close_bracket (drop k u) = None)"
  show ?case
  proof (cases "close_bracket (c # cs)")
    case (Some r)
    have "?R (c # cs) cap \<longleftrightarrow> cap = [] \<and> rest = r"
    proof
      assume "?R (c # cs) cap"
      then obtain v where v: "c # cs = cap @ v" "close_bracket v = Some rest"
        and m: "\<forall>k < length cap. close_bracket (drop k (c # cs)) = None" by blast
      have "cap = []"
      proof (rule ccontr)
        assume "cap \<noteq> []"
        then have "0 < length cap" by simp
        with m have "close_bracket (drop 0 (c # cs)) = None" by blast
        with Some show False by simp
      qed
      with v Some show "cap = [] \<and> rest = r" by simp
    next
      assume "cap = [] \<and> rest = r"
      with Some show "?R (c # cs) cap" by simp
    qed
    with Some show ?thesis by auto
  next
    case None
    have step: "?R (c # cs) cap \<longleftrightarrow>
        \<not> isLineTerminator c \<and> (\<exists>cap'. cap = c # cap' \<and> ?R cs cap')"
    proof
      assume "?R (c # cs) cap"
      then obtain v where v: "c # cs = cap @ v" "close_bracket v = Some rest"
        and l: "\<forall>x \<in> set cap. \<not> isLineTerminator x"
        and m: "\<forall>k < length cap. close_bracket (drop k (c # cs)) = None" by blast
      from v None obtain cap' where cap: "cap = c # cap'" by (cases cap) auto
      have "\<forall>k < length cap'. close_bracket (drop k cs) = None"
      proof (intro allI impI)
        fix k assume "k < length cap'"
        then have "Suc k < length cap" by (simp add: cap)
        with m have "close_bracket (drop (Suc k) (c # cs)) = None" by blast
        then show "close_bracket (drop k cs) = None" by simp
      qed
      with v l cap show "\<not> isLineTerminator c \<and> (\<exists>cap'. cap = c # cap' \<and> ?R cs cap')" by auto
    next
      assume "\<not> isLineTerminator c \<and> (\<exists>cap'. cap = c # cap' \<and> ?R cs cap')"
      then obtain cap' v where c: "\<not> isLineTerminator c" and cap: "cap = c # cap'"
        and v: "cs = cap' @ v" "close_bracket v = Some rest"
        and l: "\<forall>x \<in> set cap'. \<not> isLineTerminator x"
        and m: "\<forall>k < length cap'. close_bracket (drop k cs) = None" by blast
      have "\<forall>k < length cap. close_bracket (drop k (c # cs)) = None"
      proof (intro allI impI)
        fix k assume k: "k < length cap"
        show "close_bracket (drop k (c # cs)) = None"
        proof (cases k)
          case 0
          with None show ?thesis by simp
        next
          case (Suc j)
          with k cap have "j < length cap'" by simp
          with m Suc show ?thesis by simp
        qed
      qed
      with c cap v l show "?R (c # cs) cap" by auto
    qed
    have "lazy_bracket (c # cs) = Some (cap, rest) \<longleftrightarrow>
        \<not> isLineTerminator c \<and> (\<exists>cap'. cap = c # cap' \<and> lazy_bracket cs = Some (cap', rest))"
      using None by (auto split: option.splits)
    then show ?thesis unfolding step using Cons.IH by simp
  qed
qed

lemma match_image_iff:
  "match_image t = Some (alt, rest) \<longleftrightarrow>
     (\<exists>u. t = js ''!['' @ u \<and> lazy_bracket u = Some (alt, rest))"
proof (cases t)
  case Nil
  then show ?thesis by (simp add: match_image_def js_tokens)
next
  case (Cons c cs)
  show ?thesis
  proof (cases cs)
    case Nil
    with Cons show ?thesis by (simp add: match_image_def js_tokens)
  next
    case (Cons d ds)
    with \<open>t = c # cs\<close> show ?thesis by (auto simp: match_image_def js_tokens)
  qed
qed

lemma match_link_iff:
  "match_link t = Some (lbl, rest) \<longleftrightarrow>
     (\<exists>u. t = js ''['' @ u \<and> lazy_bracket u = Some (lbl, rest))"
  by (cases t) (auto simp: match_link_def js_tokens)

lemma replace_images_match:
  "match_image t = Some (alt, rest) \<Longrightarrow> replace_images t = replace_images rest"
  by (cases t) (simp_all add: match_image_def)

lemma replace_links_match:
  "match_link t = Some (lbl, rest) \<Longrightarrow> replace_links t = lbl @ replace_links rest"
  by (cases t) (simp_all add: match_link_def)

lemma replace_markup_nth:
  "i < length t \<Longrightarrow> replace_markup t ! i = (if isMarkup (t ! i) then 0x20 else t ! i)"
  by (simp add: replace_markup_def)

lemma isMarkup_iff: "isMarkup x \<longleftrightarrow> x \<in> {0x60, 0x2A, 0x5F, 0x3E, 0x23, 0x2B, 0x2D}"
  by (auto simp: isMarkup_def)

lemma collapse_whitespace_run:
  assumes "w \<noteq> []" and "\<forall>x \<in> set w. isWhiteSpace x" and "t = [] \<or> \<not> isWhiteSpace (hd t)"
  shows "collapse_whitespace (w @ t) = 0x20 # collapse_whitespace t"
proof -
  from assms(1) obtain c w' where w: "w = c # w'" by (cases w) auto
  have "dropWhile isWhiteSpace t = t" using assms(3) by (cases t) auto
  with assms(2) w have "dropWhile isWhiteSpace (w' @ t) = t"
    by (simp add: dropWhile_append)
  with assms(2) w show ?thesis by simp
qed

lemma trim_decompose:
  "\<exists>l r. t = l @ trim t @ r \<and> (\<forall>x \<in> set l. isWhiteSpace x) \<and> (\<forall>x \<in> set r. isWhiteSpace x)"
proof -
  let ?u = "dropWhile isWhiteSpace t"
  let ?l = "takeWhile isWhiteSpace t"
  let ?r = "rev (takeWhile isWhiteSpace (rev ?u))"
  have "trim t @ ?r = rev (takeWhile isWhiteSpace (rev ?u) @ dropWhile isWhiteSpace (rev ?u))"
    by (simp only: trim_def rev_append)
  also have "\<dots> = rev (rev ?u)" by (simp only: takeWhile_dropWhile_id)
  also have "\<dots> = ?u" by (simp only: rev_rev_ident)
  finally have "?l @ trim t @ ?r = ?l @ ?u" by (simp only:)
  then have "t = ?l @ trim t @ ?r" by (simp only: takeWhile_dropWhile_id)
  moreover have "\<forall>x \<in> set ?l. isWhiteSpace x" by (auto dest: set_takeWhileD)
  moreover have "\<forall>x \<in> set ?r. isWhiteSpace x" by (auto dest: set_takeWhileD)
  ultimately show ?thesis by blast
qed

text \<open>
  C8, as stated, fails: a url ends at the first closing parenthesis, so an image or a link
  whose url holds a parenthesis is not taken whole. Of the image \<open>![a](b(c))\<close> the last
  parenthesis is left, and the link \<open>[a](b(c))\<close> becomes \<open>a)\<close>.
\<close>

theorem C8_stripMarkdown_counterexample:
  "stripMarkdown (js ''![a](b(c))'') = js '')'' \<and> stripMarkdown (js ''[a](b(c))'') = js ''a)''"
  by (simp add: stripMarkdown_def js_def match_image_def match_link_def close_bracket_def
      replace_markup_def isMarkup_def isWhiteSpace_def isLineTerminator_def trim_def)

text \<open>
  C8, amended: \<open>stripMarkdown\<close> is a function of its argument alone, five stages in order,
  and on the example of the specification it gives \<open>Hi link\<close>.
  \<^item> The first stage deletes every match of \<open>![alt](url)\<close>, the second replaces every
    match of \<open>[text](url)\<close> by its text. Both scan from the left: a character at which no
    match starts is kept, and after a match the scan goes on behind it. A match is lazy and
    stays on one line: \<open>alt\<close> (or \<open>text\<close>) is the shortest stretch without a line
    terminator after which \<open>](\<close>, a url and \<open>)\<close> follow, and the url, without a line
    terminator, ends at the first \<open>)\<close>.
  \<^item> The third stage replaces each of the seven markup characters (backtick, \<open>*\<close>, \<open>_\<close>,
    \<open>>\<close>, \<open>#\<close>, \<open>+\<close>, \<open>-\<close>) by a space and keeps every other character.
  \<^item> The fourth stage replaces each maximal run of white space by one space.
  \<^item> The fifth stage removes the white space at both ends, and nothing else.
  So the result holds no markup character, its only white space is the single space, never
  two in a row and never at either end.
\<close>

theorem C8_stripMarkdown:
  "stripMarkdown (js ''**Hi** [link](url) ![img](url2)'') = js ''Hi link''
   \<and> stripMarkdown s =
        trim (collapse_whitespace (replace_markup (replace_links (replace_images s))))
   \<and> replace_images [] = []
   \<and> (\<forall>alt rest. match_image t = Some (alt, rest) \<longrightarrow> replace_images t = replace_images rest)
   \<and> (match_image (c # t) = None \<longrightarrow> replace_images (c # t) = c # replace_images t)
   \<and> (match_image t = Some (cap, rest) \<longleftrightarrow>
        (\<exists>u. t = js ''!['' @ u \<and> lazy_bracket u = Some (cap, rest)))
   \<and> replace_links [] = []
   \<and> (\<forall>lbl rest. match_link t = Some (lbl, rest) \<longrightarrow> replace_links t = lbl @ replace_links rest)
   \<and> (match_link (c # t) = None \<longrightarrow> replace_links (c # t) = c # replace_links t)
   \<and> (match_link t = Some (cap, rest) \<longleftrightarrow>
        (\<exists>u. t = js ''['' @ u \<and> lazy_bracket u = Some (cap, rest)))
   \<and> (lazy_bracket t = Some (cap, rest) \<longleftrightarrow>
        (\<exists>v. t = cap @ v \<and> close_bracket v = Some rest
           \<and> (\<forall>x \<in> set cap. \<not> isLineTerminator x)
           \<and> (\<forall>k < length cap. close_bracket (drop k t) = None)))
   \<and> (close_bracket t = Some rest \<longleftrightarrow>
        (\<exists>url. t = js '']('' @ url @ js '')'' @ rest
           \<and> (\<forall>x \<in> set url. x \<noteq> 0x29 \<and> \<not> isLineTerminator x)))
   \<and> length (replace_markup t) = length t
   \<and> (\<forall>i < length t. replace_markup t ! i = (if isMarkup (t ! i) then 0x20 else t ! i))
   \<and> (isMarkup c \<longleftrightarrow> c \<in> {0x60, 0x2A, 0x5F, 0x3E, 0x23, 0x2B, 0x2D})
   \<and> collapse_whitespace [] = []
   \<and> (\<not> isWhiteSpace c \<longrightarrow> collapse_whitespace (c # t) = c # collapse_whitespace t)
   \<and> (w \<noteq> [] \<and> (\<forall>x \<in> set w. isWhiteSpace x) \<and> (t = [] \<or> \<not> isWhiteSpace (hd t))
        \<longrightarrow> collapse_whitespace (w @ t) = 0x20 # collapse_whitespace t)
   \<and> (\<exists>l r. t = l @ trim t @ r
          \<and> (\<forall>x \<in> set l. isWhiteSpace x) \<and> (\<forall>x \<in> set r. isWhiteSpace x))
   \<and> (trim t \<noteq> [] \<longrightarrow> \<not> isWhiteSpace (hd (trim t)) \<and> \<not> isWhiteSpace (last (trim t)))
   \<and> (\<forall>x \<in> set (stripMarkdown s). \<not> isMarkup x \<and> (isWhiteSpace x \<longrightarrow> x = 0x20))
   \<and> successively (\<lambda>a b. \<not> (isWhiteSpace a \<and> isWhiteSpace b)) (stripMarkdown s)
   \<and> (stripMarkdown s \<noteq> [] \<longrightarrow>
        \<not> isWhiteSpace (hd (stripMarkdown s)) \<and> \<not> isWhiteSpace (last (stripMarkdown s)))"
proof -
  have images: "\<forall>alt rest. match_image t = Some (alt, rest) \<longrightarrow> replace_images t = replace_images rest"
    by (blast intro: replace_images_match)
  have images_keep: "match_image (c # t) = None \<longrightarrow> replace_images (c # t) = c # replace_images t"
    by simp
  have links: "\<forall>lbl rest. match_link t = Some (lbl, rest) \<longrightarrow> replace_links t = lbl @ replace_links rest"
    by (blast intro: replace_links_match)
  have links_keep: "match_link (c # t) = None \<longrightarrow> replace_links (c # t) = c # replace_links t"
    by simp
  have markup_length: "length (replace_markup t) = length t"
    by (simp add: replace_markup_def)
  have markup: "\<forall>i < length t. replace_markup t ! i = (if isMarkup (t ! i) then 0x20 else t ! i)"
    by (simp add: replace_markup_nth)
  have keep: "\<not> isWhiteSpace c \<longrightarrow> collapse_whitespace (c # t) = c # collapse_whitespace t"
    by simp
  have run: "w \<noteq> [] \<and> (\<forall>x \<in> set w. isWhiteSpace x) \<and> (t = [] \<or> \<not> isWhiteSpace (hd t))
        \<longrightarrow> collapse_whitespace (w @ t) = 0x20 # collapse_whitespace t"
    using collapse_whitespace_run [of w t] by blast
  have ends: "trim t \<noteq> [] \<longrightarrow> \<not> isWhiteSpace (hd (trim t)) \<and> \<not> isWhiteSpace (last (trim t))"
    using trim_ends [of t] by blast
  have chars: "\<forall>x \<in> set (stripMarkdown s). \<not> isMarkup x \<and> (isWhiteSpace x \<longrightarrow> x = 0x20)"
    using stripMarkdown_chars by blast
  have adjacent: "successively (\<lambda>a b. \<not> (isWhiteSpace a \<and> isWhiteSpace b)) (stripMarkdown s)"
    unfolding stripMarkdown_def by (intro trim_adjacent collapse_whitespace_adjacent)
  have result_ends: "stripMarkdown s \<noteq> [] \<longrightarrow>
        \<not> isWhiteSpace (hd (stripMarkdown s)) \<and> \<not> isWhiteSpace (last (stripMarkdown s))"
    unfolding stripMarkdown_def using trim_ends by blast
  show ?thesis
    apply (rule conjI, rule stripMarkdown_example)
    apply (rule conjI, rule stripMarkdown_def)
    apply (rule conjI, rule replace_images.simps(1))
    apply (rule conjI, rule images)
    apply (rule conjI, rule images_keep)
    apply (rule conjI, rule match_image_iff)
    apply (rule conjI, rule replace_links.simps(1))
    apply (rule conjI, rule links)
    apply (rule conjI, rule links_keep)
    apply (rule conjI, rule match_link_iff)
    apply (rule conjI, rule lazy_bracket_iff)
    apply (rule conjI, rule close_bracket_iff)
    apply (rule conjI, rule markup_length)
    apply (rule conjI, rule markup)
    apply (rule conjI, rule isMarkup_iff)
    apply (rule conjI, rule collapse_whitespace.simps(1))
    apply (rule conjI, rule keep)
    apply (rule conjI, rule run)
    apply (rule conjI, rule trim_decompose)
    apply (rule conjI, rule ends)
    apply (rule conjI, rule chars)
    apply (rule conjI, rule adjacent)
    apply (rule result_ends)
    done
qed

theorem C8_stripMarkdown_witness:
  "match_image (js ''![i](u) x'') = Some (js ''i'', js '' x'')
   \<and> replace_images (js ''![i](u) x'') = replace_images (js '' x'')
   \<and> replace_markup (js ''a*b'') ! 1 = 0x20
   \<and> collapse_whitespace (js ''  a'') = 0x20 # collapse_whitespace (js ''a'')
   \<and> stripMarkdown (js ''Wow! ![i](u)'') = js ''Wow!''
   \<and> stripMarkdown (js ''a*b'') = js ''a b''"
proof -
  have lb: "lazy_bracket (js ''i](u) x'') = Some (js ''i'', js '' x'')"
    by (simp add: js_def close_bracket_def isLineTerminator_def)
  have cat: "js ''![i](u) x'' = js ''!['' @ js ''i](u) x''"
    by (simp add: js_def)
  note I = C8_stripMarkdown [where t = "js ''![i](u) x''" and cap = "js ''i''" and rest = "js '' x''"]
  have "\<exists>u. js ''![i](u) x'' = js ''!['' @ u \<and> lazy_bracket u = Some (js ''i'', js '' x'')"
    using lb cat by blast
  with I [THEN conjunct2, THEN conjunct2, THEN conjunct2, THEN conjunct2, THEN conjunct2, THEN conjunct1]
  have m: "match_image (js ''![i](u) x'') = Some (js ''i'', js '' x'')" by (rule iffD2)
  from I [THEN conjunct2, THEN conjunct2, THEN conjunct2, THEN conjunct1, THEN spec, THEN spec] m
  have r: "replace_images (js ''![i](u) x'') = replace_images (js '' x'')" by (rule mp)
  note M = C8_stripMarkdown [where t = "js ''a*b''"]
  have "1 < length (js ''a*b'')" by (simp add: js_def)
  with M [THEN conjunct2, THEN conjunct2, THEN conjunct2, THEN conjunct2, THEN conjunct2, THEN conjunct2, THEN conjunct2, THEN conjunct2, THEN conjunct2, THEN conjunct2, THEN conjunct2, THEN conjunct2, THEN conjunct2, THEN conjunct1, THEN spec, of 1]
  have "replace_markup (js ''a*b'') ! 1
      = (if isMarkup (js ''a*b'' ! 1) then 0x20 else js ''a*b'' ! 1)"
    by (rule mp)
  then have k: "replace_markup (js ''a*b'') ! 1 = 0x20"
    by (simp add: js_def isMarkup_def)
  note W = C8_stripMarkdown [where w = "js ''  ''" and t = "js ''a''"]
  have "js ''  '' \<noteq> [] \<and> (\<forall>x \<in> set (js ''  ''). isWhiteSpace x)
        \<and> (js ''a'' = [] \<or> \<not> isWhiteSpace (hd (js ''a'')))"
    by (simp add: js_def isWhiteSpace_def isLineTerminator_def)
  with W [THEN conjunct2, THEN conjunct2, THEN conjunct2, THEN conjunct2, THEN conjunct2, THEN conjunct2, THEN conjunct2, THEN conjunct2, THEN conjunct2, THEN conjunct2, THEN conjunct2, THEN conjunct2, THEN conjunct2, THEN conjunct2, THEN conjunct2, THEN conjunct2, THEN conjunct2, THEN conjunct1]
  have "collapse_whitespace (js ''  '' @ js ''a'') = 0x20 # collapse_whitespace (js ''a'')"
    by (rule mp)
  moreover have "js ''  '' @ js ''a'' = js ''  a''" by (simp add: js_def)
  ultimately have c: "collapse_whitespace (js ''  a'') = 0x20 # collapse_whitespace (js ''a'')"
    by (simp only:)
  have wow: "stripMarkdown (js ''Wow! ![i](u)'') = js ''Wow!''"
    by (simp add: stripMarkdown_def js_def match_image_def match_link_def close_bracket_def
        replace_markup_def isMarkup_def isWhiteSpace_def isLineTerminator_def trim_def)
  have ab: "stripMarkdown (js ''a*b'') = js ''a b''"
    by (simp add: stripMarkdown_def js_def match_image_def match_link_def close_bracket_def
        replace_markup_def isMarkup_def isWhiteSpace_def isLineTerminator_def trim_def)
  from m r k c wow ab show ?thesis by (intro conjI)
qed

end
